theory Spec2Isabelle
  imports Complex_Main
begin

section \<open>Scalars\<close>

text \<open>
  The notebook \<^verbatim>\<open>verlet.ipynb\<close> computes with float64 arrays. Rounding and overflow
  are not modelled: the scalar type is a parameter of the definitions of the arrays, the
  operator, the energies, the steps and the loop. At type \<open>real\<close> they are the program in
  exact arithmetic. At type \<open>npfloat\<close> they are the program over the reals extended with
  the special values of IEEE arithmetic (the infinities and NaN), with the IEEE rules for
  them; the sign of a zero is not kept.
\<close>

datatype npfloat = Fin real | PInf | NInf | NaN

text \<open>The infinity with the sign of \<open>s\<close>; NaN when \<open>s\<close> is zero (\<open>inf * 0\<close>, \<open>0 / 0\<close>).\<close>

definition signed_inf :: "real \<Rightarrow> npfloat" where
  "signed_inf s = (if s = 0 then NaN else if 0 < s then PInf else NInf)"

instantiation npfloat :: "{zero,one,uminus,minus,times,inverse,semigroup_add}"
begin

definition zero_npfloat :: npfloat where
  "zero_npfloat = Fin 0"

definition one_npfloat :: npfloat where
  "one_npfloat = Fin 1"

fun plus_npfloat :: "npfloat \<Rightarrow> npfloat \<Rightarrow> npfloat" where
  "plus_npfloat NaN b = NaN"
| "plus_npfloat a NaN = NaN"
| "plus_npfloat (Fin x) (Fin y) = Fin (x + y)"
| "plus_npfloat PInf NInf = NaN"
| "plus_npfloat NInf PInf = NaN"
| "plus_npfloat PInf b = PInf"
| "plus_npfloat a PInf = PInf"
| "plus_npfloat NInf b = NInf"
| "plus_npfloat a NInf = NInf"

fun uminus_npfloat :: "npfloat \<Rightarrow> npfloat" where
  "uminus_npfloat (Fin x) = Fin (- x)"
| "uminus_npfloat PInf = NInf"
| "uminus_npfloat NInf = PInf"
| "uminus_npfloat NaN = NaN"

definition minus_npfloat :: "npfloat \<Rightarrow> npfloat \<Rightarrow> npfloat" where
  "minus_npfloat a b = a + (- b)"

fun times_npfloat :: "npfloat \<Rightarrow> npfloat \<Rightarrow> npfloat" where
  "times_npfloat NaN b = NaN"
| "times_npfloat a NaN = NaN"
| "times_npfloat (Fin x) (Fin y) = Fin (x * y)"
| "times_npfloat (Fin x) PInf = signed_inf x"
| "times_npfloat (Fin x) NInf = signed_inf (- x)"
| "times_npfloat PInf (Fin y) = signed_inf y"
| "times_npfloat NInf (Fin y) = signed_inf (- y)"
| "times_npfloat PInf PInf = PInf"
| "times_npfloat NInf NInf = PInf"
| "times_npfloat PInf NInf = NInf"
| "times_npfloat NInf PInf = NInf"

fun divide_npfloat :: "npfloat \<Rightarrow> npfloat \<Rightarrow> npfloat" where
  "divide_npfloat NaN b = NaN"
| "divide_npfloat a NaN = NaN"
| "divide_npfloat (Fin x) (Fin y) = (if y = 0 then signed_inf x else Fin (x / y))"
| "divide_npfloat (Fin x) b = Fin 0"
| "divide_npfloat PInf (Fin y) = (if 0 \<le> y then PInf else NInf)"
| "divide_npfloat NInf (Fin y) = (if 0 \<le> y then NInf else PInf)"
| "divide_npfloat a b = NaN"

definition inverse_npfloat :: "npfloat \<Rightarrow> npfloat" where
  "inverse_npfloat a = Fin 1 div a"

instance
proof
  fix a b c :: npfloat
  show "a + b + c = a + (b + c)"
    by (cases a; cases b; cases c) simp_all
qed

end

instance npfloat :: numeral ..

instance npfloat :: power ..

definition isfinite :: "npfloat \<Rightarrow> bool" where
  "isfinite a = (case a of Fin x \<Rightarrow> True | _ \<Rightarrow> False)"

section \<open>Arrays and sparse matrices\<close>

text \<open>
  A one-dimensional array is a list. A sparse matrix is the list of its rows, every entry
  written out, zeros included. In the notebook every array has length \<open>n\<close> and every
  matrix is \<open>n\<close> by \<open>n\<close>; the operations below are those of numpy and scipy on such
  operands. On operands whose shapes do not agree numpy and scipy raise, and \<open>map2\<close>
  stops at the shorter list: the theorems that depend on the shapes state them.
\<close>

type_synonym 'a vec = "'a list"
type_synonym 'a mat = "'a list list"

datatype error = IndexError | ValueError | ZeroDivisionError | OverflowError

definition vadd :: "'a::plus vec \<Rightarrow> 'a vec \<Rightarrow> 'a vec" where
  "vadd u v = map2 (+) u v"

definition vsub :: "'a::minus vec \<Rightarrow> 'a vec \<Rightarrow> 'a vec" where
  "vsub u v = map2 (-) u v"

definition smul :: "'a::times \<Rightarrow> 'a vec \<Rightarrow> 'a vec" where
  "smul c v = map ((*) c) v"

text \<open>\<^verbatim>\<open>np.sum\<close> and \<^verbatim>\<open>np.dot\<close> on one-dimensional arrays.\<close>

definition np_sum :: "'a::{plus,zero} vec \<Rightarrow> 'a" where
  "np_sum v = foldr (+) v 0"

definition dot :: "'a::{plus,times,zero} vec \<Rightarrow> 'a vec \<Rightarrow> 'a" where
  "dot u v = np_sum (map2 (*) u v)"

definition ncols :: "'a mat \<Rightarrow> nat" where
  "ncols A = (case A of [] \<Rightarrow> 0 | r # _ \<Rightarrow> length r)"

text \<open>\<^verbatim>\<open>A.T\<close>, \<^verbatim>\<open>A * B\<close> for two matrices, \<^verbatim>\<open>A * v\<close>, \<^verbatim>\<open>c * A\<close> and \<^verbatim>\<open>A + B\<close>.\<close>

definition transpose_m :: "'a mat \<Rightarrow> 'a mat" where
  "transpose_m A = map (\<lambda>j. map (\<lambda>r. r ! j) A) [0..<ncols A]"

definition mat_vec :: "'a::{plus,times,zero} mat \<Rightarrow> 'a vec \<Rightarrow> 'a vec" where
  "mat_vec A v = map (\<lambda>r. dot r v) A"

definition mat_mul :: "'a::{plus,times,zero} mat \<Rightarrow> 'a mat \<Rightarrow> 'a mat" where
  "mat_mul A B = map (\<lambda>r. map (\<lambda>c. dot r c) (transpose_m B)) A"

definition msmul :: "'a::times \<Rightarrow> 'a mat \<Rightarrow> 'a mat" where
  "msmul c A = map (smul c) A"

definition madd :: "'a::plus mat \<Rightarrow> 'a mat \<Rightarrow> 'a mat" where
  "madd A B = map2 vadd A B"

text \<open>\<^verbatim>\<open>scipy.sparse.eye(n)\<close>.\<close>

definition eye :: "nat \<Rightarrow> 'a::{zero,one} mat" where
  "eye n = map (\<lambda>i. map (\<lambda>j. if i = j then 1 else 0) [0..<n]) [0..<n]"

text \<open>
  \<^verbatim>\<open>scipy.sparse.diags(diagonals, offsets)\<close>: the square matrix of size
  \<open>len(diagonals[0]) + abs(offsets[0])\<close> whose entry \<open>(i, j)\<close> is the element
  \<open>min i j\<close> of the diagonal given for the offset \<open>j - i\<close>, and zero when no diagonal
  is given for that offset. scipy checks that every diagonal has the length its offset
  needs; both calls of the notebook pass that check.
\<close>

fun diags_entry :: "('a::zero vec \<times> int) list \<Rightarrow> nat \<Rightarrow> nat \<Rightarrow> 'a" where
  "diags_entry [] i j = 0"
| "diags_entry ((d, k) # rest) i j =
     (if int j - int i = k then d ! min i j else diags_entry rest i j)"

definition diags :: "'a::zero vec list \<Rightarrow> int list \<Rightarrow> 'a mat" where
  "diags diagonals offsets =
     (let m = length (hd diagonals) + nat \<bar>hd offsets\<bar>
      in map (\<lambda>i. map (\<lambda>j. diags_entry (zip diagonals offsets) i j) [0..<m]) [0..<m])"

section \<open>The stiffness operator and the energies\<close>

text \<open>
  \<^verbatim>\<open>
  diag = np.ones(n)
  diag[0] = 0
  D = scipy.sparse.diags([diag, -np.ones(n - 1)], [0, -1])
  \<Lambda> = scipy.sparse.diags([np.ones(n)], [0])
  L = D.T * \<Lambda> * D
  \<close>
  with \<open>n\<close> a parameter (the notebook sets it to 128). The assignment
  \<^verbatim>\<open>diag[0] = 0\<close> raises IndexError when \<open>n = 0\<close>; \<open>build\<close> has that branch.
\<close>

definition diag :: "nat \<Rightarrow> 'a::{zero,one} vec" where
  "diag n = (replicate n 1)[0 := 0]"

definition D_mat :: "nat \<Rightarrow> 'a::{zero,one,uminus} mat" where
  "D_mat n = diags [diag n, map uminus (replicate (n - 1) 1)] [0, - 1]"

definition Lambda_mat :: "nat \<Rightarrow> 'a::{zero,one} mat" where
  "Lambda_mat n = diags [replicate n 1] [0]"

definition L_mat :: "nat \<Rightarrow> 'a::{zero,one,uminus,plus,times} mat" where
  "L_mat n = mat_mul (mat_mul (transpose_m (D_mat n)) (Lambda_mat n)) (D_mat n)"

definition build :: "nat \<Rightarrow> error + 'a::{zero,one,uminus,plus,times} mat" where
  "build n = (if n = 0 then Inl IndexError else Inr (L_mat n))"

text \<open>
  \<^verbatim>\<open>
  def kinetic_energy(p):   return 0.5 * np.sum(p**2)
  def velocity(p):         return p
  def potential_energy(q): return 0.5 * np.dot(L * q, q)
  def potential_gradient(q): return L * q
  \<close>
  The global \<open>L\<close> is a parameter.
\<close>

definition kinetic_energy :: "'a::{zero,inverse,numeral,power} vec \<Rightarrow> 'a" where
  "kinetic_energy p = (1 / 2) * np_sum (map (\<lambda>x. x ^ 2) p)"

definition velocity :: "'a vec \<Rightarrow> 'a vec" where
  "velocity p = p"

definition potential_energy :: "'a::{zero,inverse,numeral,times} mat \<Rightarrow> 'a vec \<Rightarrow> 'a" where
  "potential_energy L q = (1 / 2) * dot (mat_vec L q) q"

definition potential_gradient :: "'a::{plus,times,zero} mat \<Rightarrow> 'a vec \<Rightarrow> 'a vec" where
  "potential_gradient L q = mat_vec L q"

definition total_energy :: "'a::{zero,inverse,numeral,power} mat \<Rightarrow> 'a vec \<times> 'a vec \<Rightarrow> 'a" where
  "total_energy L st = kinetic_energy (snd st) + potential_energy L (fst st)"

section \<open>The three integrators\<close>

text \<open>
  One pass of the loop body for one scheme, on the pair \<open>(q, p)\<close> of that scheme. An
  in-place update (\<^verbatim>\<open>q += ...\<close>) binds the name again, so each line reads the arrays
  as the lines before it left them. \<open>\<delta>t\<close> and \<open>L\<close> are the notebook's globals.
  \<^verbatim>\<open>
  q_verlet += \<delta>t / 2 * velocity(p_verlet)
  p_verlet -= \<delta>t * potential_gradient(q_verlet)
  q_verlet += \<delta>t / 2 * velocity(p_verlet)
  \<close>
\<close>

definition verlet_step ::
  "'a::{zero,minus,times,inverse,numeral} \<Rightarrow> 'a mat \<Rightarrow> 'a vec \<times> 'a vec \<Rightarrow> 'a vec \<times> 'a vec" where
  "verlet_step \<delta>t L st =
     (let q = fst st; p = snd st;
          q = vadd q (smul (\<delta>t / 2) (velocity p));
          p = vsub p (smul \<delta>t (potential_gradient L q));
          q = vadd q (smul (\<delta>t / 2) (velocity p))
      in (q, p))"

text \<open>
  \<^verbatim>\<open>
  qk = q_feuler.copy()
  q_feuler += \<delta>t * velocity(p_feuler)
  p_feuler -= \<delta>t * potential_gradient(qk)
  \<close>
\<close>

definition feuler_step ::
  "'a::{zero,plus,minus,times} \<Rightarrow> 'a mat \<Rightarrow> 'a vec \<times> 'a vec \<Rightarrow> 'a vec \<times> 'a vec" where
  "feuler_step \<delta>t L st =
     (let q = fst st; p = snd st;
          qk = q;
          q = vadd q (smul \<delta>t (velocity p));
          p = vsub p (smul \<delta>t (potential_gradient L qk))
      in (q, p))"

text \<open>
  \<^verbatim>\<open>
  pk = p_beuler.copy()
  p_beuler = scipy.sparse.linalg.spsolve(scipy.sparse.eye(n) + \<delta>t**2 * L, pk - \<delta>t * L * q_beuler)
  q_beuler += \<delta>t * p_beuler
  \<close>
  \<^verbatim>\<open>spsolve\<close> is scipy's sparse direct solver, not code of the notebook: it is a
  parameter. \<open>solves\<close> is its contract on the systems of dimension \<open>n\<close> with one matrix:
  the array returned has the length of the right-hand side and solves the system.
\<close>

definition beuler_step ::
  "('a mat \<Rightarrow> 'a vec \<Rightarrow> 'a vec) \<Rightarrow> nat \<Rightarrow> 'a::{zero,plus,minus,power} \<Rightarrow> 'a mat
     \<Rightarrow> 'a vec \<times> 'a vec \<Rightarrow> 'a vec \<times> 'a vec" where
  "beuler_step spsolve n \<delta>t L st =
     (let q = fst st; p = snd st;
          pk = p;
          p = spsolve (madd (eye n) (msmul (\<delta>t ^ 2) L)) (vsub pk (mat_vec (msmul \<delta>t L) q));
          q = vadd q (smul \<delta>t p)
      in (q, p))"

definition solves :: "('a::{zero,plus,times} mat \<Rightarrow> 'a vec \<Rightarrow> 'a vec) \<Rightarrow> nat \<Rightarrow> 'a mat \<Rightarrow> bool" where
  "solves spsolve n A =
     (\<forall>b. length b = n \<longrightarrow> length (spsolve A b) = n \<and> mat_vec A (spsolve A b) = b)"

section \<open>The integration loop\<close>

text \<open>
  The arrays of the loop. \<open>run\<close> is the cell
  \<^verbatim>\<open>
  q_verlet, q_feuler, q_beuler = q0.copy(), q0.copy(), q0.copy()
  p_verlet, p_feuler, p_beuler = p0.copy(), p0.copy(), p0.copy()
  energy_verlet, energy_feuler, energy_beuler = np.zeros(num_steps), np.zeros(num_steps), np.zeros(num_steps)
  for k in range(num_steps):
      (the Verlet lines)
      energy_verlet[k] = kinetic_energy(p_verlet) + potential_energy(q_verlet)
      (the forward Euler lines)
      energy_feuler[k] = kinetic_energy(p_feuler) + potential_energy(q_feuler)
      (the backward Euler lines)
      energy_beuler[k] = kinetic_energy(p_beuler) + potential_energy(q_beuler)
  \<close>
  with \<open>num_steps\<close> a count of steps.
\<close>

record 'a sim =
  q_verlet :: "'a vec"
  p_verlet :: "'a vec"
  energy_verlet :: "'a vec"
  q_feuler :: "'a vec"
  p_feuler :: "'a vec"
  energy_feuler :: "'a vec"
  q_beuler :: "'a vec"
  p_beuler :: "'a vec"
  energy_beuler :: "'a vec"

definition loop_body ::
  "('a mat \<Rightarrow> 'a vec \<Rightarrow> 'a vec) \<Rightarrow> nat \<Rightarrow> 'a::{zero,minus,inverse,numeral,power} \<Rightarrow> 'a mat
     \<Rightarrow> nat \<Rightarrow> 'a sim \<Rightarrow> 'a sim" where
  "loop_body spsolve n \<delta>t L k s =
     (let v = verlet_step \<delta>t L (q_verlet s, p_verlet s);
          f = feuler_step \<delta>t L (q_feuler s, p_feuler s);
          b = beuler_step spsolve n \<delta>t L (q_beuler s, p_beuler s)
      in \<lparr>q_verlet = fst v, p_verlet = snd v,
          energy_verlet = (energy_verlet s)[k := kinetic_energy (snd v) + potential_energy L (fst v)],
          q_feuler = fst f, p_feuler = snd f,
          energy_feuler = (energy_feuler s)[k := kinetic_energy (snd f) + potential_energy L (fst f)],
          q_beuler = fst b, p_beuler = snd b,
          energy_beuler = (energy_beuler s)[k := kinetic_energy (snd b) + potential_energy L (fst b)]\<rparr>)"

definition init :: "nat \<Rightarrow> 'a::zero vec \<Rightarrow> 'a vec \<Rightarrow> 'a sim" where
  "init num_steps q0 p0 =
     \<lparr>q_verlet = q0, p_verlet = p0, energy_verlet = replicate num_steps 0,
      q_feuler = q0, p_feuler = p0, energy_feuler = replicate num_steps 0,
      q_beuler = q0, p_beuler = p0, energy_beuler = replicate num_steps 0\<rparr>"

definition run ::
  "('a mat \<Rightarrow> 'a vec \<Rightarrow> 'a vec) \<Rightarrow> nat \<Rightarrow> 'a::{zero,minus,inverse,numeral,power} \<Rightarrow> 'a mat
     \<Rightarrow> nat \<Rightarrow> 'a vec \<Rightarrow> 'a vec \<Rightarrow> 'a sim" where
  "run spsolve n \<delta>t L num_steps q0 p0 =
     fold (loop_body spsolve n \<delta>t L) [0..<num_steps] (init num_steps q0 p0)"

section \<open>The number of steps and the conservation error\<close>

text \<open>
  The two scalar expressions of the notebook outside the loop are float64 computations
  whose results depend on rounding, on overflow and on the sign of a zero, so their values
  are float64 values with these kept: a finite value (\<open>Num 0\<close> is the positive zero), the
  negative zero, the infinities and NaN.
\<close>

datatype f64 = Num real | NegZero | PosInf | NegInf | NotNum

fun neg :: "f64 \<Rightarrow> bool" where
  "neg (Num x) = (x < 0)"
| "neg NegZero = True"
| "neg NegInf = True"
| "neg PosInf = False"
| "neg NotNum = False"

fun is_zero :: "f64 \<Rightarrow> bool" where
  "is_zero (Num x) = (x = 0)"
| "is_zero NegZero = True"
| "is_zero a = False"

fun is_inf :: "f64 \<Rightarrow> bool" where
  "is_inf PosInf = True"
| "is_inf NegInf = True"
| "is_inf a = False"

fun val :: "f64 \<Rightarrow> real" where
  "val (Num x) = x"
| "val a = 0"

definition zero_of :: "bool \<Rightarrow> f64" where
  "zero_of s = (if s then NegZero else Num 0)"

definition inf_of :: "bool \<Rightarrow> f64" where
  "inf_of s = (if s then NegInf else PosInf)"

text \<open>
  The rounding of an exact result to a double is done by the hardware, not by the
  notebook: it is a parameter \<open>rnd\<close> of the operations. \<open>rounds\<close> is what IEEE 754
  says of rounding to nearest: from \<open>2^1024 - 2^970\<close> on the result is the infinity of
  the sign; below, the result is within the relative error \<open>2^-53\<close> (or the absolute error
  \<open>2^-1075\<close>, in the subnormal range) of the exact value, on its side of zero, and a
  negative value that rounds to zero gives the negative zero.
\<close>

definition overflow_threshold :: real where
  "overflow_threshold = 2 ^ 1024 - 2 ^ 970"

definition rounds :: "(real \<Rightarrow> f64) \<Rightarrow> bool" where
  "rounds rnd =
     (\<forall>t. if overflow_threshold \<le> \<bar>t\<bar> then rnd t = inf_of (t < 0)
          else (\<exists>y. rnd t = (if y = 0 \<and> t < 0 then NegZero else Num y) \<and>
                    \<bar>y - t\<bar> \<le> max (\<bar>t\<bar> / 2 ^ 53) (1 / 2 ^ 1075) \<and>
                    (0 \<le> t \<longrightarrow> 0 \<le> y) \<and> (t \<le> 0 \<longrightarrow> y \<le> 0)))"

text \<open>
  The rounding that changes no value below the overflow threshold. It meets \<open>rounds\<close>,
  and serves to run the operations on examples whose exact results are doubles.
\<close>

definition no_rounding :: "real \<Rightarrow> f64" where
  "no_rounding t = (if overflow_threshold \<le> \<bar>t\<bar> then inf_of (t < 0) else Num t)"


definition f64_div :: "(real \<Rightarrow> f64) \<Rightarrow> f64 \<Rightarrow> f64 \<Rightarrow> f64" where
  "f64_div rnd a b =
     (if a = NotNum \<or> b = NotNum then NotNum
      else if is_inf a then (if is_inf b then NotNum else inf_of (neg a \<noteq> neg b))
      else if is_inf b then zero_of (neg a \<noteq> neg b)
      else if is_zero b then (if is_zero a then NotNum else inf_of (neg a \<noteq> neg b))
      else if is_zero a then zero_of (neg a \<noteq> neg b)
      else rnd (val a / val b))"

text \<open>
  \<^verbatim>\<open>num_steps = int(2 * np.pi / \<delta>t)\<close>, with \<open>\<delta>t\<close> a parameter (the notebook sets it
  to 0.01). \<^verbatim>\<open>np.pi\<close> is the double nearest to the circle constant,
  \<open>884279719003555 / 2^48\<close>, and doubling it is exact. The division of Python floats
  raises ZeroDivisionError on a zero divisor of either sign and is the float64 division
  otherwise. \<^verbatim>\<open>int\<close> drops the fractional part of a finite float, and raises
  OverflowError on an infinity and ValueError on NaN.
\<close>

definition np_pi :: real where
  "np_pi = 884279719003555 / 281474976710656"

definition py_int :: "f64 \<Rightarrow> error + int" where
  "py_int x =
     (case x of
        Num r \<Rightarrow> Inr (if 0 \<le> r then \<lfloor>r\<rfloor> else \<lceil>r\<rceil>)
      | NegZero \<Rightarrow> Inr 0
      | NotNum \<Rightarrow> Inl ValueError
      | _ \<Rightarrow> Inl OverflowError)"

definition num_steps_of :: "(real \<Rightarrow> f64) \<Rightarrow> f64 \<Rightarrow> error + int" where
  "num_steps_of rnd \<delta>t =
     (if is_zero \<delta>t then Inl ZeroDivisionError
      else py_int (f64_div rnd (Num (2 * np_pi)) \<delta>t))"


section \<open>Shapes and the statements of the written design\<close>

text \<open>An \<open>n\<close> by \<open>n\<close> matrix.\<close>

definition square :: "nat \<Rightarrow> 'a mat \<Rightarrow> bool" where
  "square n A = (length A = n \<and> list_all (\<lambda>r. length r = n) A)"

text \<open>
  The Verlet step as the design writes it: the three named stages
  \<open>q_half = q + (\<delta>t/2) velocity(p)\<close>, \<open>p_new = p - \<delta>t potentialGradient(q_half)\<close>,
  \<open>q_new = q_half + (\<delta>t/2) velocity(p_new)\<close>.
\<close>

definition verlet_spec ::
  "'a::{zero,minus,times,inverse,numeral} \<Rightarrow> 'a mat \<Rightarrow> 'a vec \<times> 'a vec \<Rightarrow> 'a vec \<times> 'a vec" where
  "verlet_spec \<delta>t L st =
     (let q_half = vadd (fst st) (smul (\<delta>t / 2) (velocity (snd st)));
          p_new = vsub (snd st) (smul \<delta>t (potential_gradient L q_half));
          q_new = vadd q_half (smul (\<delta>t / 2) (velocity p_new))
      in (q_new, p_new))"

text \<open>
  The forward Euler step as the design writes it: both updates read the old state,
  \<open>q_new = q + \<delta>t velocity(p)\<close> and \<open>p_new = p - \<delta>t potentialGradient(q)\<close>.
\<close>

definition feuler_spec ::
  "'a::{zero,plus,minus,times} \<Rightarrow> 'a mat \<Rightarrow> 'a vec \<times> 'a vec \<Rightarrow> 'a vec \<times> 'a vec" where
  "feuler_spec \<delta>t L st =
     (let q_new = vadd (fst st) (smul \<delta>t (velocity (snd st)));
          p_new = vsub (snd st) (smul \<delta>t (potential_gradient L (fst st)))
      in (q_new, p_new))"

text \<open>
  The defining equations of implicit Euler, \<open>q_new = q_old + \<delta>t p_new\<close> and
  \<open>p_new = p_old - \<delta>t L q_new\<close>, and the closed form of the design: \<open>p_new\<close> solves
  \<open>(I + \<delta>t\<^sup>2 L) p_new = p_old - \<delta>t L q_old\<close> and \<open>q_new = q_old + \<delta>t p_new\<close>.
\<close>

definition implicit_euler ::
  "'a::{zero,plus,minus,times} \<Rightarrow> 'a mat \<Rightarrow> 'a vec \<times> 'a vec \<Rightarrow> 'a vec \<times> 'a vec \<Rightarrow> bool" where
  "implicit_euler \<delta>t L old new =
     (fst new = vadd (fst old) (smul \<delta>t (snd new)) \<and>
      snd new = vsub (snd old) (smul \<delta>t (mat_vec L (fst new))))"

definition beuler_closed_form ::
  "nat \<Rightarrow> 'a::{zero,plus,minus,power} \<Rightarrow> 'a mat \<Rightarrow> 'a vec \<times> 'a vec \<Rightarrow> 'a vec \<times> 'a vec \<Rightarrow> bool" where
  "beuler_closed_form n \<delta>t L old new =
     (mat_vec (madd (eye n) (msmul (\<delta>t ^ 2) L)) (snd new)
        = vsub (snd old) (smul \<delta>t (mat_vec L (fst old))) \<and>
      fst new = vadd (fst old) (smul \<delta>t (snd new)))"

text \<open>
  A direct solver for two equations (Cramer's rule), to run the backward Euler step on
  examples of dimension two.
\<close>

definition cramer2 :: "real mat \<Rightarrow> real vec \<Rightarrow> real vec" where
  "cramer2 A b =
     (let det = A ! 0 ! 0 * A ! 1 ! 1 - A ! 0 ! 1 * A ! 1 ! 0
      in [(A ! 1 ! 1 * b ! 0 - A ! 0 ! 1 * b ! 1) / det,
          (A ! 0 ! 0 * b ! 1 - A ! 1 ! 0 * b ! 0) / det])"

text \<open>The array of energies of one scheme after \<open>m\<close> passes, for arrays of energies of length \<open>N\<close>.\<close>

definition energies :: "('s \<Rightarrow> 'a) \<Rightarrow> ('s \<Rightarrow> 's) \<Rightarrow> 's \<Rightarrow> nat \<Rightarrow> nat \<Rightarrow> 'a::zero vec" where
  "energies E step st m N = map (\<lambda>k. E ((step ^^ Suc k) st)) [0..<m] @ replicate (N - m) 0"

text \<open>The factor of the change of energy in a forward Euler step: \<open>|L q|\<^sup>2 + p . L p\<close>.\<close>

definition drift :: "real mat \<Rightarrow> real vec \<times> real vec \<Rightarrow> real" where
  "drift L st = dot (mat_vec L (fst st)) (mat_vec L (fst st)) + dot (mat_vec L (snd st)) (snd st)"

section \<open>Linear algebra on arrays\<close>

lemma np_sum_sum_list: "np_sum (v::real list) = sum_list v"
  by (simp add: np_sum_def sum_list.eq_foldr)

lemma length_vadd [simp]: "length (vadd u v) = min (length u) (length v)"
  by (simp add: vadd_def)

lemma length_vsub [simp]: "length (vsub u v) = min (length u) (length v)"
  by (simp add: vsub_def)

lemma length_smul [simp]: "length (smul c v) = length v"
  by (simp add: smul_def)

lemma length_mat_vec [simp]: "length (mat_vec A v) = length A"
  by (simp add: mat_vec_def)

lemma nth_vadd: "i < length u \<Longrightarrow> i < length v \<Longrightarrow> vadd u v ! i = u ! i + v ! i"
  by (simp add: vadd_def)

lemma nth_vsub: "i < length u \<Longrightarrow> i < length v \<Longrightarrow> vsub u v ! i = u ! i - v ! i"
  by (simp add: vsub_def)

lemma nth_smul: "i < length v \<Longrightarrow> smul c v ! i = c * v ! i"
  by (simp add: smul_def)

lemma nth_mat_vec: "i < length A \<Longrightarrow> mat_vec A v ! i = dot (A ! i) v"
  by (simp add: mat_vec_def)

lemma dot_sum:
  fixes u v :: "real list"
  assumes "length u = n" "length v = n"
  shows "dot u v = (\<Sum>i<n. u ! i * v ! i)"
proof -
  have "dot u v = sum_list (map2 (*) u v)"
    by (simp add: dot_def np_sum_sum_list)
  also have "\<dots> = (\<Sum>i = 0..<length (map2 (*) u v). map2 (*) u v ! i)"
    by (rule sum_list_sum_nth)
  also have "\<dots> = (\<Sum>i<n. u ! i * v ! i)"
    using assms by (simp add: atLeast0LessThan)
  finally show ?thesis .
qed


lemma square_row: "square n A \<Longrightarrow> i < n \<Longrightarrow> length (A ! i) = n"
  by (simp add: square_def list_all_length)

lemma mat_vec_sum:
  fixes A :: "real mat"
  assumes "square n A" "length v = n" "i < n"
  shows "mat_vec A v ! i = (\<Sum>j<n. A ! i ! j * v ! j)"
  using assms by (simp add: nth_mat_vec square_def dot_sum square_row)

lemma mat_vec_vadd:
  fixes A :: "real mat"
  assumes "square n A" "length u = n" "length v = n"
  shows "mat_vec A (vadd u v) = vadd (mat_vec A u) (mat_vec A v)"
proof (rule nth_equalityI)
  show "length (mat_vec A (vadd u v)) = length (vadd (mat_vec A u) (mat_vec A v))" by simp
next
  fix i assume "i < length (mat_vec A (vadd u v))"
  then have i: "i < n" using assms by (simp add: square_def)
  have "mat_vec A (vadd u v) ! i = (\<Sum>j<n. A ! i ! j * (u ! j + v ! j))"
    using assms i by (simp add: mat_vec_sum nth_vadd)
  also have "\<dots> = mat_vec A u ! i + mat_vec A v ! i"
    using assms i by (simp add: mat_vec_sum distrib_left sum.distrib)
  finally show "mat_vec A (vadd u v) ! i = vadd (mat_vec A u) (mat_vec A v) ! i"
    using assms i by (simp add: nth_vadd square_def)
qed

lemma mat_vec_smul:
  fixes A :: "real mat"
  assumes "square n A" "length v = n"
  shows "mat_vec A (smul c v) = smul c (mat_vec A v)"
proof (rule nth_equalityI)
  show "length (mat_vec A (smul c v)) = length (smul c (mat_vec A v))" by simp
next
  fix i assume "i < length (mat_vec A (smul c v))"
  then have i: "i < n" using assms by (simp add: square_def)
  have "mat_vec A (smul c v) ! i = (\<Sum>j<n. A ! i ! j * (c * v ! j))"
    using assms i by (simp add: mat_vec_sum nth_smul)
  also have "\<dots> = c * mat_vec A v ! i"
    using assms i by (simp add: mat_vec_sum sum_distrib_left mult.left_commute)
  finally show "mat_vec A (smul c v) ! i = smul c (mat_vec A v) ! i"
    using assms i by (simp add: nth_smul square_def)
qed

lemma square_msmul: "square n A \<Longrightarrow> square n (msmul c A)"
  by (simp add: square_def msmul_def list_all_length)

lemma square_eye: "square n (eye n)"
  by (simp add: square_def eye_def list_all_length)

lemma square_madd: "square n A \<Longrightarrow> square n B \<Longrightarrow> square n (madd A B)"
  by (simp add: square_def madd_def list_all_length)

lemma nth_msmul: "square n A \<Longrightarrow> i < n \<Longrightarrow> j < n \<Longrightarrow> msmul c A ! i ! j = c * A ! i ! j"
  by (simp add: square_def msmul_def nth_smul list_all_length)

lemma nth_madd: "square n A \<Longrightarrow> square n B \<Longrightarrow> i < n \<Longrightarrow> j < n \<Longrightarrow> madd A B ! i ! j = A ! i ! j + B ! i ! j"
  by (simp add: square_def madd_def nth_vadd list_all_length)

lemma nth_eye: "i < n \<Longrightarrow> j < n \<Longrightarrow> eye n ! i ! j = (if i = j then 1 else 0)"
  by (simp add: eye_def)

lemma mat_vec_msmul:
  fixes A :: "real mat"
  assumes "square n A" "length v = n"
  shows "mat_vec (msmul c A) v = smul c (mat_vec A v)"
proof (rule nth_equalityI)
  show "length (mat_vec (msmul c A) v) = length (smul c (mat_vec A v))"
    by (simp add: msmul_def)
next
  fix i assume "i < length (mat_vec (msmul c A) v)"
  then have i: "i < n" using assms by (simp add: square_def msmul_def)
  have "mat_vec (msmul c A) v ! i = (\<Sum>j<n. msmul c A ! i ! j * v ! j)"
    using assms i by (simp add: mat_vec_sum square_msmul)
  also have "\<dots> = (\<Sum>j<n. c * A ! i ! j * v ! j)"
    using assms i by (intro sum.cong) (simp_all add: nth_msmul)
  also have "\<dots> = c * mat_vec A v ! i"
    using assms i by (simp add: mat_vec_sum sum_distrib_left mult.assoc)
  finally show "mat_vec (msmul c A) v ! i = smul c (mat_vec A v) ! i"
    using assms i by (simp add: nth_smul square_def)
qed

lemma mat_vec_madd:
  fixes A B :: "real mat"
  assumes "square n A" "square n B" "length v = n"
  shows "mat_vec (madd A B) v = vadd (mat_vec A v) (mat_vec B v)"
proof (rule nth_equalityI)
  show "length (mat_vec (madd A B) v) = length (vadd (mat_vec A v) (mat_vec B v))"
    by (simp add: madd_def)
next
  fix i assume "i < length (mat_vec (madd A B) v)"
  then have i: "i < n" using assms by (simp add: square_def madd_def)
  have "mat_vec (madd A B) v ! i = (\<Sum>j<n. madd A B ! i ! j * v ! j)"
    using assms i by (simp add: mat_vec_sum square_madd)
  also have "\<dots> = (\<Sum>j<n. (A ! i ! j + B ! i ! j) * v ! j)"
    using assms i by (intro sum.cong) (simp_all add: nth_madd)
  also have "\<dots> = mat_vec A v ! i + mat_vec B v ! i"
    using assms i by (simp add: mat_vec_sum distrib_right sum.distrib)
  finally show "mat_vec (madd A B) v ! i = vadd (mat_vec A v) (mat_vec B v) ! i"
    using assms i by (simp add: nth_vadd square_def)
qed

lemma mat_vec_eye:
  fixes v :: "real list"
  assumes "length v = n"
  shows "mat_vec (eye n) v = v"
proof (rule nth_equalityI)
  show "length (mat_vec (eye n) v) = length v" using assms by (simp add: eye_def)
next
  fix i assume "i < length (mat_vec (eye n) v)"
  then have i: "i < n" by (simp add: eye_def)
  have "mat_vec (eye n) v ! i = (\<Sum>j<n. eye n ! i ! j * v ! j)"
    using assms i by (simp add: mat_vec_sum square_eye)
  also have "\<dots> = (\<Sum>j<n. if j = i then v ! j else 0)"
    using i by (intro sum.cong) (auto simp add: nth_eye)
  also have "\<dots> = v ! i"
    using i by simp
  finally show "mat_vec (eye n) v ! i = v ! i" .
qed

section \<open>The integrators and the written design\<close>

text \<open>
  C1. For every state \<open>(q, p)\<close> and every \<open>\<delta>t\<close>, one Verlet step of the loop is the
  three-stage composition of the design: the half drift of \<open>q\<close>, the momentum kick
  evaluated at the half-updated position, and the second half drift with the new
  momentum. It holds for every scalar type.
\<close>

theorem verlet_step_three_stages:
  "verlet_step \<delta>t L (q, p) = verlet_spec \<delta>t L (q, p)"
  by (simp add: verlet_step_def verlet_spec_def Let_def)

text \<open>
  C4. For every state and every \<open>\<delta>t\<close>, one forward Euler step returns
  \<open>q + \<delta>t velocity(p)\<close> from the old \<open>p\<close> and \<open>p - \<delta>t potentialGradient(q)\<close> from
  the old \<open>q\<close>: the copy \<open>qk\<close> taken before the position update keeps the momentum
  update apart from the in-place change of \<open>q\<close>.
\<close>

theorem feuler_step_old_state:
  "feuler_step \<delta>t L (q, p) = feuler_spec \<delta>t L (q, p) \<and>
   snd (feuler_step \<delta>t L (q, p)) = vsub p (smul \<delta>t (potential_gradient L q))"
  by (simp add: feuler_step_def feuler_spec_def Let_def)

lemma vadd_smul_cancel:
  fixes u v :: "real vec"
  assumes "length u = length v"
  shows "vadd (vadd u (smul c v)) (smul (- c) v) = u"
  using assms by (intro nth_equalityI) (simp_all add: nth_vadd nth_smul)

lemma vsub_smul_cancel:
  fixes u v :: "real vec"
  assumes "length u = length v"
  shows "vsub (vsub u (smul c v)) (smul (- c) v) = u"
  using assms by (intro nth_equalityI) (simp_all add: nth_vsub nth_smul)

text \<open>
  C10. A Verlet step is exactly reversible in exact arithmetic: the step with time step
  \<open>- \<delta>t\<close> applied to the result of the step with time step \<open>\<delta>t\<close> gives back
  \<open>(q, p)\<close>, for arrays of the length of the operator.
\<close>

theorem verlet_step_reversible:
  fixes q p :: "real vec"
  assumes "length q = n" "length p = n" "length L = n"
  shows "verlet_step (- \<delta>t) L (verlet_step \<delta>t L (q, p)) = (q, p)"
proof -
  define qh where "qh = vadd q (smul (\<delta>t / 2) p)"
  define p' where "p' = vsub p (smul \<delta>t (mat_vec L qh))"
  define q' where "q' = vadd qh (smul (\<delta>t / 2) p')"
  have fwd: "verlet_step \<delta>t L (q, p) = (q', p')"
    by (simp add: verlet_step_def Let_def velocity_def potential_gradient_def qh_def p'_def q'_def)
  have lqh: "length qh = n" and lp': "length p' = n"
    using assms by (simp_all add: qh_def p'_def)
  have 1: "vadd q' (smul (- (\<delta>t / 2)) p') = qh"
    unfolding q'_def using vadd_smul_cancel [of qh p' "\<delta>t / 2"] lqh lp' by simp
  have 2: "vsub p' (smul (- \<delta>t) (mat_vec L qh)) = p"
    unfolding p'_def using vsub_smul_cancel [of p "mat_vec L qh" \<delta>t] assms by simp
  have 3: "vadd qh (smul (- (\<delta>t / 2)) p) = q"
    unfolding qh_def using vadd_smul_cancel [of q p "\<delta>t / 2"] assms by simp
  have "verlet_step (- \<delta>t) L (q', p') = (q, p)"
    by (simp add: verlet_step_def Let_def velocity_def potential_gradient_def 1 2 3)
  then show ?thesis
    by (simp only: fwd)
qed

lemma implicit_iff_closed_form:
  fixes q p :: "real vec"
  assumes L: "square n L" and q: "length q = n" and p: "length p = n"
    and q': "length q' = n" and p': "length p' = n"
  shows "implicit_euler \<delta>t L (q, p) (q', p') \<longleftrightarrow> beuler_closed_form n \<delta>t L (q, p) (q', p')"
proof -
  let ?A = "madd (eye n) (msmul (\<delta>t ^ 2) L)"
  have A: "mat_vec ?A p' = vadd p' (smul (\<delta>t ^ 2) (mat_vec L p'))"
    using mat_vec_madd [OF square_eye square_msmul [OF L] p', of "\<delta>t ^ 2"]
      mat_vec_eye [OF p'] mat_vec_msmul [OF L p', of "\<delta>t ^ 2"] by simp
  have lin: "mat_vec L (vadd q (smul \<delta>t p')) = vadd (mat_vec L q) (smul \<delta>t (mat_vec L p'))"
    using mat_vec_vadd [OF L q, of "smul \<delta>t p'"] mat_vec_smul [OF L p', of \<delta>t] p' by simp
  have lL: "length L = n" using L by (simp add: square_def)
  have key: "p' = vsub p (smul \<delta>t (vadd (mat_vec L q) (smul \<delta>t (mat_vec L p'))))
      \<longleftrightarrow> vadd p' (smul (\<delta>t ^ 2) (mat_vec L p')) = vsub p (smul \<delta>t (mat_vec L q))"
    using p p' lL
    by (auto simp add: list_eq_iff_nth_eq nth_vadd nth_vsub nth_smul power2_eq_square algebra_simps)
  show ?thesis
    unfolding implicit_euler_def beuler_closed_form_def
    using A lin key by auto
qed

lemma beuler_step_satisfies:
  fixes q p :: "real vec"
  assumes L: "square n L" and q: "length q = n" and p: "length p = n"
    and s: "solves spsolve n (madd (eye n) (msmul (\<delta>t ^ 2) L))"
  shows "implicit_euler \<delta>t L (q, p) (beuler_step spsolve n \<delta>t L (q, p))"
proof -
  let ?A = "madd (eye n) (msmul (\<delta>t ^ 2) L)"
  let ?b = "vsub p (mat_vec (msmul \<delta>t L) q)"
  define p' where "p' = spsolve ?A ?b"
  define q' where "q' = vadd q (smul \<delta>t p')"
  have lb: "length ?b = n" using L p by (simp add: msmul_def square_def)
  have lp': "length p' = n" and sol: "mat_vec ?A p' = ?b"
    using s lb unfolding solves_def p'_def by blast+
  have lq': "length q' = n" using q lp' by (simp add: q'_def)
  have b: "?b = vsub p (smul \<delta>t (mat_vec L q))"
    using mat_vec_msmul [OF L q, of \<delta>t] by simp
  have "beuler_closed_form n \<delta>t L (q, p) (q', p')"
    unfolding beuler_closed_form_def using sol b by (simp add: q'_def)
  then have "implicit_euler \<delta>t L (q, p) (q', p')"
    using implicit_iff_closed_form [OF L q p lq' lp'] by simp
  moreover have "beuler_step spsolve n \<delta>t L (q, p) = (q', p')"
    by (simp add: beuler_step_def Let_def p'_def q'_def)
  ultimately show ?thesis
    by simp
qed

text \<open>
  C3. For a square operator and a state of its dimension, in exact arithmetic: a pair
  satisfies the defining equations of implicit Euler exactly when it satisfies the closed
  form of the design, and when the solver solves the systems of the matrix
  \<open>I + \<delta>t\<^sup>2 L\<close> the pair returned by the backward Euler step satisfies the defining
  equations.
\<close>

theorem beuler_step_implicit:
  fixes q p :: "real vec"
  assumes "square n L" "length q = n" "length p = n"
  shows "(\<forall>q' p'. length q' = n \<and> length p' = n \<longrightarrow>
            (implicit_euler \<delta>t L (q, p) (q', p') \<longleftrightarrow> beuler_closed_form n \<delta>t L (q, p) (q', p'))) \<and>
         (solves spsolve n (madd (eye n) (msmul (\<delta>t ^ 2) L)) \<longrightarrow>
            implicit_euler \<delta>t L (q, p) (beuler_step spsolve n \<delta>t L (q, p)))"
proof (intro conjI allI impI)
  fix q' p' :: "real vec"
  assume "length q' = n \<and> length p' = n"
  then show "implicit_euler \<delta>t L (q, p) (q', p') \<longleftrightarrow> beuler_closed_form n \<delta>t L (q, p) (q', p')"
    using assms implicit_iff_closed_form by blast
next
  assume "solves spsolve n (madd (eye n) (msmul (\<delta>t ^ 2) L))"
  then show "implicit_euler \<delta>t L (q, p) (beuler_step spsolve n \<delta>t L (q, p))"
    by (rule beuler_step_satisfies [OF assms])
qed


lemma upt_2: "[0..<2] = [0, 1]"
  by (simp add: numeral_2_eq_2)

lemma D_mat_2: "(D_mat 2 :: real mat) = [[0, 0], [- 1, 1]]"
  by (simp add: D_mat_def diags_def diag_def upt_2 numeral_2_eq_2)

lemma L_mat_2: "(L_mat 2 :: real mat) = [[1, - 1], [- 1, 1]]"
  by code_simp

theorem verlet_step_reversible_witness:
  "length [1, 2 :: real] = 2 \<and> length [0, 0 :: real] = 2 \<and> length (L_mat 2 :: real mat) = 2 \<and>
   verlet_step (- 1) (L_mat 2) (verlet_step 1 (L_mat 2) ([1, 2 :: real], [0, 0])) = ([1, 2], [0, 0])"
  using verlet_step_reversible [of "[1, 2]" 2 "[0, 0]" "L_mat 2" 1]
  by (simp add: L_mat_2)

lemma solves_cramer2:
  fixes a b c d :: real
  assumes det: "a * d - b * c \<noteq> 0"
  shows "solves cramer2 2 [[a, b], [c, d]]"
proof -
  have "length (cramer2 [[a, b], [c, d]] r) = 2 \<and>
        mat_vec [[a, b], [c, d]] (cramer2 [[a, b], [c, d]] r) = r"
    if "length r = 2" for r :: "real vec"
  proof -
    from that have "length r = Suc (Suc 0)"
      by simp
    then obtain x y where r: "r = [x, y]"
      by (auto simp add: length_Suc_conv)
    define u where "u = (d * x - b * y) / (a * d - b * c)"
    define v where "v = (a * y - c * x) / (a * d - b * c)"
    have c: "cramer2 [[a, b], [c, d]] r = [u, v]"
      by (simp add: r cramer2_def Let_def u_def v_def)
    have "a * u + b * v = (a * (d * x - b * y) + b * (a * y - c * x)) / (a * d - b * c)"
      by (simp add: u_def v_def add_divide_distrib)
    also have "a * (d * x - b * y) + b * (a * y - c * x) = x * (a * d - b * c)"
      by (simp add: algebra_simps)
    finally have 1: "a * u + b * v = x"
      using det by simp
    have "c * u + d * v = (c * (d * x - b * y) + d * (a * y - c * x)) / (a * d - b * c)"
      by (simp add: u_def v_def add_divide_distrib)
    also have "c * (d * x - b * y) + d * (a * y - c * x) = y * (a * d - b * c)"
      by (simp add: algebra_simps)
    finally have 2: "c * u + d * v = y"
      using det by simp
    show ?thesis
      unfolding c by (simp add: r mat_vec_def dot_def np_sum_def 1 2)
  qed
  then show ?thesis
    by (simp add: solves_def)
qed

lemma A_2: "madd (eye 2) (msmul (1 ^ 2) (L_mat 2)) = ([[2, - 1], [- 1, 2]] :: real mat)"
  by (simp add: L_mat_2 madd_def msmul_def eye_def upt_2 vadd_def smul_def)

theorem beuler_step_implicit_witness:
  "square 2 (L_mat 2 :: real mat) \<and> length [1, 2 :: real] = 2 \<and> length [0, 0 :: real] = 2 \<and>
   solves cramer2 2 (madd (eye 2) (msmul (1 ^ 2) (L_mat 2))) \<and>
   implicit_euler 1 (L_mat 2) ([1, 2], [0, 0]) (beuler_step cramer2 2 1 (L_mat 2) ([1, 2], [0, 0])) \<and>
   beuler_step cramer2 2 1 (L_mat 2) ([1, 2], [0, 0]) = ([4 / 3, 5 / 3], [1 / 3, - 1 / 3])"
proof -
  have sq: "square 2 (L_mat 2 :: real mat)"
    by (simp add: L_mat_2 square_def)
  have s: "solves cramer2 2 (madd (eye 2) (msmul (1 ^ 2) (L_mat 2)))"
    by (simp only: A_2) (simp add: solves_cramer2)
  have v: "beuler_step cramer2 2 1 (L_mat 2) ([1, 2], [0, 0]) = ([4 / 3, 5 / 3], [1 / 3, - 1 / 3])"
    by (simp add: beuler_step_def Let_def L_mat_2 madd_def msmul_def eye_def upt_2 vadd_def smul_def
        vsub_def mat_vec_def dot_def np_sum_def cramer2_def)
  show ?thesis
    using beuler_step_implicit [of 2 "L_mat 2" "[1, 2]" "[0, 0]" 1 cramer2] sq s v
    by simp
qed

section \<open>The stiffness operator\<close>

lemma length_diags:
  "length (diags (d # ds) (k # ks)) = length d + nat \<bar>k\<bar>"
  by (simp add: diags_def Let_def)

lemma nth_diags:
  assumes "i < length d + nat \<bar>k\<bar>" "j < length d + nat \<bar>k\<bar>"
  shows "diags (d # ds) (k # ks) ! i ! j = diags_entry (zip (d # ds) (k # ks)) i j"
  using assms by (simp add: diags_def Let_def)

lemma length_row_diags:
  assumes "i < length d + nat \<bar>k\<bar>"
  shows "length (diags (d # ds) (k # ks) ! i) = length d + nat \<bar>k\<bar>"
  using assms by (simp add: diags_def Let_def)

lemma length_diag [simp]: "length (diag n) = n"
  by (simp add: diag_def)

lemma square_D_mat: "square n (D_mat n)"
  by (simp add: square_def D_mat_def list_all_length length_diags length_row_diags)

lemma nth_D_mat:
  assumes "i < n" "j < n"
  shows "(D_mat n :: real mat) ! i ! j =
    (if i = j then (if i = 0 then 0 else 1) else if i = Suc j then - 1 else 0)"
proof -
  have "(D_mat n :: real mat) ! i ! j =
      diags_entry [(diag n, 0), (map uminus (replicate (n - 1) 1), - 1)] i j"
    using assms by (simp add: D_mat_def nth_diags)
  also have "\<dots> = (if i = j then (if i = 0 then 0 else 1) else if i = Suc j then - 1 else 0)"
    using assms by (auto simp add: diag_def nth_list_update)
  finally show ?thesis .
qed

lemma Lambda_mat_eye: "(Lambda_mat n :: real mat) = eye n"
proof (rule nth_equalityI)
  show "length (Lambda_mat n :: real mat) = length (eye n :: real mat)"
    by (simp add: Lambda_mat_def length_diags eye_def)
next
  fix i assume "i < length (Lambda_mat n :: real mat)"
  then have i: "i < n" by (simp add: Lambda_mat_def length_diags)
  show "(Lambda_mat n :: real mat) ! i = eye n ! i"
  proof (rule nth_equalityI)
    show "length (Lambda_mat n ! i :: real vec) = length (eye n ! i :: real vec)"
      using i by (simp add: Lambda_mat_def length_row_diags eye_def)
  next
    fix j assume "j < length (Lambda_mat n ! i :: real vec)"
    then have j: "j < n" using i by (simp add: Lambda_mat_def length_row_diags)
    show "(Lambda_mat n :: real mat) ! i ! j = eye n ! i ! j"
      using i j by (auto simp add: Lambda_mat_def nth_diags nth_eye)
  qed
qed

lemma ncols_square: "square n A \<Longrightarrow> ncols A = n"
  by (cases A) (auto simp add: square_def ncols_def)

lemma square_transpose_m: "square n A \<Longrightarrow> square n (transpose_m A)"
  by (simp add: square_def transpose_m_def list_all_length ncols_square)

lemma nth_transpose_m: "square n A \<Longrightarrow> i < n \<Longrightarrow> j < n \<Longrightarrow> transpose_m A ! i ! j = A ! j ! i"
  by (simp add: transpose_m_def ncols_square) (simp add: square_def)

lemma square_mat_mul: "square n A \<Longrightarrow> square n B \<Longrightarrow> square n (mat_mul A B)"
  by (simp add: square_def mat_mul_def list_all_length transpose_m_def ncols_square)

lemma nth_mat_mul:
  fixes A B :: "real mat"
  assumes "square n A" "square n B" "i < n" "j < n"
  shows "mat_mul A B ! i ! j = (\<Sum>k<n. A ! i ! k * B ! k ! j)"
proof -
  have "mat_mul A B ! i ! j = dot (A ! i) (transpose_m B ! j)"
    using assms square_transpose_m [of n B] by (simp add: mat_mul_def square_def)
  also have "\<dots> = (\<Sum>k<n. A ! i ! k * transpose_m B ! j ! k)"
    using assms square_transpose_m [of n B] by (simp add: dot_sum square_row)
  also have "\<dots> = (\<Sum>k<n. A ! i ! k * B ! k ! j)"
    using assms by (intro sum.cong) (simp_all add: nth_transpose_m)
  finally show ?thesis .
qed

lemma mat_eqI:
  assumes "square n A" "square n B" "\<And>i j. i < n \<Longrightarrow> j < n \<Longrightarrow> A ! i ! j = B ! i ! j"
  shows "A = B"
proof (rule nth_equalityI)
  show "length A = length B" using assms by (simp add: square_def)
next
  fix i assume "i < length A"
  then have i: "i < n" using assms by (simp add: square_def)
  show "A ! i = B ! i"
    using assms i by (intro nth_equalityI) (simp_all add: square_row)
qed

lemma mat_mul_eye:
  fixes A :: "real mat"
  assumes "square n A"
  shows "mat_mul A (eye n) = A"
proof (rule mat_eqI [of n])
  show "square n (mat_mul A (eye n))" using assms by (simp add: square_mat_mul square_eye)
  show "square n A" by fact
next
  fix i j assume ij: "i < n" "j < n"
  have "mat_mul A (eye n) ! i ! j = (\<Sum>k<n. A ! i ! k * eye n ! k ! j)"
    using assms ij by (simp add: nth_mat_mul square_eye)
  also have "\<dots> = (\<Sum>k<n. if k = j then A ! i ! k else 0)"
    using ij by (intro sum.cong) (auto simp add: nth_eye)
  also have "\<dots> = A ! i ! j"
    using ij by simp
  finally show "mat_mul A (eye n) ! i ! j = A ! i ! j" .
qed

lemma L_mat_DtD: "(L_mat n :: real mat) = mat_mul (transpose_m (D_mat n)) (D_mat n)"
  by (simp add: L_mat_def Lambda_mat_eye mat_mul_eye square_transpose_m square_D_mat)

lemma square_L_mat: "square n (L_mat n :: real mat)"
  by (simp add: L_mat_DtD square_mat_mul square_transpose_m square_D_mat)

text \<open>
  C5. For \<open>n > 0\<close> the operator built is \<open>D\<^sup>T D\<close> (the factor \<open>\<Lambda>\<close> is the identity),
  where \<open>D\<close> is the \<open>n\<close> by \<open>n\<close> matrix with ones on the main diagonal except a zero
  at \<open>(0, 0)\<close>, minus ones on the subdiagonal and zeros elsewhere; for \<open>n = 2\<close> the
  operator is \<open>[[1, -1], [-1, 1]]\<close>.
\<close>

theorem build_operator:
  assumes "0 < n"
  shows "build n = Inr (mat_mul (transpose_m (D_mat n)) (D_mat n) :: real mat) \<and>
         square n (D_mat n :: real mat) \<and>
         (\<forall>i<n. \<forall>j<n. (D_mat n :: real mat) ! i ! j =
            (if i = j then (if i = 0 then 0 else 1) else if i = Suc j then - 1 else 0)) \<and>
         build 2 = Inr ([[1, - 1], [- 1, 1]] :: real mat)"
  using assms by (simp add: build_def L_mat_DtD [symmetric] square_D_mat nth_D_mat L_mat_2)

theorem build_operator_witness:
  "(0::nat) < 3 \<and> build 3 = Inr ([[1, - 1, 0], [- 1, 2, - 1], [0, - 1, 1]] :: real mat) \<and>
   (D_mat 3 :: real mat) = [[0, 0, 0], [- 1, 1, 0], [0, - 1, 1]] \<and>
   mat_mul (transpose_m (D_mat 3)) (D_mat 3) = ([[1, - 1, 0], [- 1, 2, - 1], [0, - 1, 1]] :: real mat)"
proof -
  have D: "(D_mat 3 :: real mat) = [[0, 0, 0], [- 1, 1, 0], [0, - 1, 1]]"
    by code_simp
  have M: "mat_mul (transpose_m [[0, 0, 0], [- 1, 1, 0], [0, - 1, 1]]) [[0, 0, 0], [- 1, 1, 0], [0, - 1, 1]]
      = ([[1, - 1, 0], [- 1, 2, - 1], [0, - 1, 1]] :: real mat)"
    by code_simp
  show ?thesis
    using build_operator [of 3] by (simp add: D M)
qed

section \<open>The loop\<close>

lemma energies_update:
  assumes "m < N"
  shows "(energies E step st m N)[m := E (step ((step ^^ m) st))] = energies E step st (Suc m) N"
proof -
  have "replicate (N - m) (0::'a) = 0 # replicate (N - Suc m) 0"
    using assms by (simp add: Suc_diff_Suc replicate_Suc [symmetric] del: replicate_Suc)
  then show ?thesis
    by (simp add: energies_def list_update_append)
qed

lemma total_energy_pair:
  "kinetic_energy (snd st) + potential_energy L (fst st) = total_energy L st"
  by (simp add: total_energy_def)

lemma fold_loop_body:
  assumes "m \<le> N"
  shows "fold (loop_body spsolve n \<delta>t L) [0..<m] (init N q0 p0) =
    \<lparr>q_verlet = fst ((verlet_step \<delta>t L ^^ m) (q0, p0)),
     p_verlet = snd ((verlet_step \<delta>t L ^^ m) (q0, p0)),
     energy_verlet = energies (total_energy L) (verlet_step \<delta>t L) (q0, p0) m N,
     q_feuler = fst ((feuler_step \<delta>t L ^^ m) (q0, p0)),
     p_feuler = snd ((feuler_step \<delta>t L ^^ m) (q0, p0)),
     energy_feuler = energies (total_energy L) (feuler_step \<delta>t L) (q0, p0) m N,
     q_beuler = fst ((beuler_step spsolve n \<delta>t L ^^ m) (q0, p0)),
     p_beuler = snd ((beuler_step spsolve n \<delta>t L ^^ m) (q0, p0)),
     energy_beuler = energies (total_energy L) (beuler_step spsolve n \<delta>t L) (q0, p0) m N\<rparr>"
  using assms
proof (induction m)
  case 0
  then show ?case
    by (simp add: init_def energies_def)
next
  case (Suc m)
  then have m: "m < N" and IH: "fold (loop_body spsolve n \<delta>t L) [0..<m] (init N q0 p0) =
    \<lparr>q_verlet = fst ((verlet_step \<delta>t L ^^ m) (q0, p0)),
     p_verlet = snd ((verlet_step \<delta>t L ^^ m) (q0, p0)),
     energy_verlet = energies (total_energy L) (verlet_step \<delta>t L) (q0, p0) m N,
     q_feuler = fst ((feuler_step \<delta>t L ^^ m) (q0, p0)),
     p_feuler = snd ((feuler_step \<delta>t L ^^ m) (q0, p0)),
     energy_feuler = energies (total_energy L) (feuler_step \<delta>t L) (q0, p0) m N,
     q_beuler = fst ((beuler_step spsolve n \<delta>t L ^^ m) (q0, p0)),
     p_beuler = snd ((beuler_step spsolve n \<delta>t L ^^ m) (q0, p0)),
     energy_beuler = energies (total_energy L) (beuler_step spsolve n \<delta>t L) (q0, p0) m N\<rparr>"
    by simp_all
  show ?case
    by (simp only: upt_Suc_append [OF le0] fold_append fold.simps comp_apply id_apply IH)
      (simp add: loop_body_def Let_def total_energy_pair energies_update [OF m])
qed

lemma length_energies: "m \<le> N \<Longrightarrow> length (energies E step st m N) = N"
  by (simp add: energies_def)

lemma nth_energies: "k < m \<Longrightarrow> energies E step st m N ! k = E ((step ^^ Suc k) st)"
  by (simp add: energies_def nth_append)

lemma run_eq:
  "run spsolve n \<delta>t L num_steps q0 p0 =
    \<lparr>q_verlet = fst ((verlet_step \<delta>t L ^^ num_steps) (q0, p0)),
     p_verlet = snd ((verlet_step \<delta>t L ^^ num_steps) (q0, p0)),
     energy_verlet = energies (total_energy L) (verlet_step \<delta>t L) (q0, p0) num_steps num_steps,
     q_feuler = fst ((feuler_step \<delta>t L ^^ num_steps) (q0, p0)),
     p_feuler = snd ((feuler_step \<delta>t L ^^ num_steps) (q0, p0)),
     energy_feuler = energies (total_energy L) (feuler_step \<delta>t L) (q0, p0) num_steps num_steps,
     q_beuler = fst ((beuler_step spsolve n \<delta>t L ^^ num_steps) (q0, p0)),
     p_beuler = snd ((beuler_step spsolve n \<delta>t L ^^ num_steps) (q0, p0)),
     energy_beuler = energies (total_energy L) (beuler_step spsolve n \<delta>t L) (q0, p0) num_steps num_steps\<rparr>"
  unfolding run_def by (rule fold_loop_body) simp

text \<open>
  C6. For every initial state, \<open>\<delta>t\<close>, number of steps and each of the three
  integrators, the array of energies left by the loop has length \<open>num_steps\<close> and its
  entry \<open>k\<close> is \<open>kinetic_energy p + potential_energy q\<close> on the state after \<open>k + 1\<close>
  steps of that integrator: the state is advanced, then the energy is recorded.
\<close>

theorem run_trajectories:
  "length (energy_verlet (run spsolve n \<delta>t L num_steps q0 p0)) = num_steps \<and>
   length (energy_feuler (run spsolve n \<delta>t L num_steps q0 p0)) = num_steps \<and>
   length (energy_beuler (run spsolve n \<delta>t L num_steps q0 p0)) = num_steps \<and>
   (\<forall>k<num_steps.
      energy_verlet (run spsolve n \<delta>t L num_steps q0 p0) ! k =
        kinetic_energy (snd ((verlet_step \<delta>t L ^^ (k + 1)) (q0, p0))) +
        potential_energy L (fst ((verlet_step \<delta>t L ^^ (k + 1)) (q0, p0))) \<and>
      energy_feuler (run spsolve n \<delta>t L num_steps q0 p0) ! k =
        kinetic_energy (snd ((feuler_step \<delta>t L ^^ (k + 1)) (q0, p0))) +
        potential_energy L (fst ((feuler_step \<delta>t L ^^ (k + 1)) (q0, p0))) \<and>
      energy_beuler (run spsolve n \<delta>t L num_steps q0 p0) ! k =
        kinetic_energy (snd ((beuler_step spsolve n \<delta>t L ^^ (k + 1)) (q0, p0))) +
        potential_energy L (fst ((beuler_step spsolve n \<delta>t L ^^ (k + 1)) (q0, p0))))"
  by (simp add: run_eq length_energies nth_energies total_energy_def)

lemma funpow_two: "(f ^^ 2) x = f (f x)"
  by (simp add: numeral_2_eq_2)

lemma energies_two: "energies E step st 2 2 = [E (step st), E (step (step st))]"
  by (simp add: energies_def upt_2)

lemma verlet_two_steps:
  "verlet_step (1 / 2) (L_mat 2) ([1, 2 :: real], [0, 0]) = ([9 / 8, 15 / 8], [1 / 2, - (1 / 2)])"
  "verlet_step (1 / 2) (L_mat 2) ([9 / 8, 15 / 8 :: real], [1 / 2, - (1 / 2)]) =
     ([23 / 16, 25 / 16], [3 / 4, - (3 / 4)])"
  by code_simp+

lemma feuler_two_steps:
  "feuler_step (1 / 2) (L_mat 2) ([1, 2 :: real], [0, 0]) = ([1, 2], [1 / 2, - (1 / 2)])"
  "feuler_step (1 / 2) (L_mat 2) ([1, 2 :: real], [1 / 2, - (1 / 2)]) = ([5 / 4, 7 / 4], [1, - 1])"
  by code_simp+

lemma beuler_two_steps:
  "beuler_step cramer2 2 (1 / 2) (L_mat 2) ([1, 2 :: real], [0, 0]) = ([7 / 6, 11 / 6], [1 / 3, - (1 / 3)])"
  "beuler_step cramer2 2 (1 / 2) (L_mat 2) ([7 / 6, 11 / 6 :: real], [1 / 3, - (1 / 3)]) =
     ([25 / 18, 29 / 18], [4 / 9, - (4 / 9)])"
  by code_simp+

lemma energies_of_examples:
  "total_energy (L_mat 2) ([1, 2 :: real], [0, 0]) = 1 / 2"
  "total_energy (L_mat 2) ([9 / 8, 15 / 8 :: real], [1 / 2, - (1 / 2)]) = 17 / 32"
  "total_energy (L_mat 2) ([23 / 16, 25 / 16 :: real], [3 / 4, - (3 / 4)]) = 73 / 128"
  "total_energy (L_mat 2) ([1, 2 :: real], [1 / 2, - (1 / 2)]) = 3 / 4"
  "total_energy (L_mat 2) ([5 / 4, 7 / 4 :: real], [1, - 1]) = 9 / 8"
  "total_energy (L_mat 2) ([7 / 6, 11 / 6 :: real], [1 / 3, - (1 / 3)]) = 1 / 3"
  "total_energy (L_mat 2) ([25 / 18, 29 / 18 :: real], [4 / 9, - (4 / 9)]) = 2 / 9"
  by code_simp+

lemma run_example:
  "energy_verlet (run cramer2 2 (1 / 2) (L_mat 2) 2 [1, 2 :: real] [0, 0]) = [17 / 32, 73 / 128]"
  "energy_feuler (run cramer2 2 (1 / 2) (L_mat 2) 2 [1, 2 :: real] [0, 0]) = [3 / 4, 9 / 8]"
  "energy_beuler (run cramer2 2 (1 / 2) (L_mat 2) 2 [1, 2 :: real] [0, 0]) = [1 / 3, 2 / 9]"
  by (simp_all add: run_eq energies_two verlet_two_steps feuler_two_steps beuler_two_steps
      energies_of_examples)

theorem run_trajectories_witness:
  "energy_verlet (run cramer2 2 (1 / 2) (L_mat 2) 2 [1, 2 :: real] [0, 0]) = [17 / 32, 73 / 128] \<and>
   energy_feuler (run cramer2 2 (1 / 2) (L_mat 2) 2 [1, 2 :: real] [0, 0]) = [3 / 4, 9 / 8] \<and>
   energy_beuler (run cramer2 2 (1 / 2) (L_mat 2) 2 [1, 2 :: real] [0, 0]) = [1 / 3, 2 / 9] \<and>
   energy_feuler (run cramer2 2 (1 / 2) (L_mat 2) 2 [1, 2 :: real] [0, 0]) ! 1 =
     kinetic_energy (snd ((feuler_step (1 / 2) (L_mat 2) ^^ 2) ([1, 2], [0, 0]))) +
     potential_energy (L_mat 2) (fst ((feuler_step (1 / 2) (L_mat 2) ^^ 2) ([1, 2], [0, 0])))"
proof -
  have "\<forall>k<2. energy_feuler (run cramer2 2 (1 / 2) (L_mat 2) 2 [1, 2 :: real] [0, 0]) ! k =
      kinetic_energy (snd ((feuler_step (1 / 2) (L_mat 2) ^^ (k + 1)) ([1, 2], [0, 0]))) +
      potential_energy (L_mat 2) (fst ((feuler_step (1 / 2) (L_mat 2) ^^ (k + 1)) ([1, 2], [0, 0])))"
    using run_trajectories [of cramer2 2 "1 / 2" "L_mat 2" 2 "[1, 2]" "[0, 0]"] by blast
  from this [rule_format, of 1] show ?thesis
    by (simp add: run_example funpow_two)
qed

section \<open>The conservation error and the number of steps\<close>

lemma rounds_no_rounding: "rounds no_rounding"
  unfolding rounds_def no_rounding_def
proof (intro allI)
  fix t :: real
  show "if overflow_threshold \<le> \<bar>t\<bar> then (if overflow_threshold \<le> \<bar>t\<bar> then inf_of (t < 0) else Num t) = inf_of (t < 0)
        else (\<exists>y. (if overflow_threshold \<le> \<bar>t\<bar> then inf_of (t < 0) else Num t) =
                    (if y = 0 \<and> t < 0 then NegZero else Num y) \<and>
                  \<bar>y - t\<bar> \<le> max (\<bar>t\<bar> / 2 ^ 53) (1 / 2 ^ 1075) \<and>
                  (0 \<le> t \<longrightarrow> 0 \<le> y) \<and> (t \<le> 0 \<longrightarrow> y \<le> 0))"
  proof (cases "overflow_threshold \<le> \<bar>t\<bar>")
    case True
    then show ?thesis by simp
  next
    case False
    have m: "(0::real) \<le> max (\<bar>t\<bar> / 2 ^ 53) (1 / 2 ^ 1075)"
      by (simp add: le_max_iff_disj)
    have "\<exists>y. Num t = (if y = 0 \<and> t < 0 then NegZero else Num y) \<and>
        \<bar>y - t\<bar> \<le> max (\<bar>t\<bar> / 2 ^ 53) (1 / 2 ^ 1075) \<and>
        (0 \<le> t \<longrightarrow> 0 \<le> y) \<and> (t \<le> 0 \<longrightarrow> y \<le> 0)"
      using m by (intro exI [of _ t]) auto
    then show ?thesis
      using False by simp
  qed
qed

lemma rounds_below:
  assumes "rounds rnd" "0 < t" "t < overflow_threshold"
  shows "\<exists>y. rnd t = Num y \<and> 0 \<le> y \<and> \<bar>y - t\<bar> \<le> max (t / 2 ^ 53) (1 / 2 ^ 1075)"
proof -
  have "if overflow_threshold \<le> \<bar>t\<bar> then rnd t = inf_of (t < 0)
      else (\<exists>y. rnd t = (if y = 0 \<and> t < 0 then NegZero else Num y) \<and>
                \<bar>y - t\<bar> \<le> max (\<bar>t\<bar> / 2 ^ 53) (1 / 2 ^ 1075) \<and>
                (0 \<le> t \<longrightarrow> 0 \<le> y) \<and> (t \<le> 0 \<longrightarrow> y \<le> 0))"
    using assms(1) unfolding rounds_def by (rule spec)
  moreover have "\<not> overflow_threshold \<le> \<bar>t\<bar>"
    using assms by simp
  ultimately obtain y where
    "rnd t = (if y = 0 \<and> t < 0 then NegZero else Num y)"
    "\<bar>y - t\<bar> \<le> max (\<bar>t\<bar> / 2 ^ 53) (1 / 2 ^ 1075)" "0 \<le> t \<longrightarrow> 0 \<le> y"
    by (simp only: if_False) blast
  then show ?thesis
    using assms(2) by (intro exI [of _ y]) simp
qed

lemma rounds_above:
  assumes "rounds rnd" "0 < t" "overflow_threshold \<le> t"
  shows "rnd t = PosInf"
proof -
  have "overflow_threshold \<le> \<bar>t\<bar>"
    using assms by simp
  moreover have "if overflow_threshold \<le> \<bar>t\<bar> then rnd t = inf_of (t < 0)
      else (\<exists>y. rnd t = (if y = 0 \<and> t < 0 then NegZero else Num y) \<and>
                \<bar>y - t\<bar> \<le> max (\<bar>t\<bar> / 2 ^ 53) (1 / 2 ^ 1075) \<and>
                (0 \<le> t \<longrightarrow> 0 \<le> y) \<and> (t \<le> 0 \<longrightarrow> y \<le> 0))"
    using assms(1) unfolding rounds_def by (rule spec)
  ultimately have "rnd t = inf_of (t < 0)"
    by (simp only: if_True)
  then show ?thesis
    using assms(2) by (simp add: inf_of_def)
qed

lemma quotient_eq:
  assumes "0 < d"
  shows "f64_div rnd (Num (2 * np_pi)) (Num d) = rnd (2 * np_pi / d)"
  using assms by (simp add: f64_div_def np_pi_def)

lemma num_steps_of_quotient:
  assumes "rounds rnd" "0 < d"
  shows "(overflow_threshold \<le> 2 * np_pi / d \<longrightarrow> num_steps_of rnd (Num d) = Inl OverflowError) \<and>
         (2 * np_pi / d < overflow_threshold \<longrightarrow>
            (\<exists>y. f64_div rnd (Num (2 * np_pi)) (Num d) = Num y \<and> 0 \<le> y \<and>
                 \<bar>y - 2 * np_pi / d\<bar> \<le> max (2 * np_pi / d / 2 ^ 53) (1 / 2 ^ 1075) \<and>
                 num_steps_of rnd (Num d) = Inr \<lfloor>y\<rfloor> \<and>
                 (\<lfloor>y\<rfloor> = round y \<longleftrightarrow> frac y < 1 / 2)))"
proof (intro conjI impI)
  have t: "0 < 2 * np_pi / d"
    using assms(2) by (simp add: np_pi_def)
  {
    assume "overflow_threshold \<le> 2 * np_pi / d"
    then have "rnd (2 * np_pi / d) = PosInf"
      using rounds_above [OF assms(1) t] by simp
    then show "num_steps_of rnd (Num d) = Inl OverflowError"
      using assms(2) by (simp add: num_steps_of_def quotient_eq py_int_def)
  }
  {
    assume "2 * np_pi / d < overflow_threshold"
    then obtain y where y: "rnd (2 * np_pi / d) = Num y" "0 \<le> y"
        "\<bar>y - 2 * np_pi / d\<bar> \<le> max (2 * np_pi / d / 2 ^ 53) (1 / 2 ^ 1075)"
      using rounds_below [OF assms(1) t] by blast
    have r: "\<lfloor>y\<rfloor> = round y \<longleftrightarrow> frac y < 1 / 2"
      unfolding round_def frac_def by linarith
    show "\<exists>y. f64_div rnd (Num (2 * np_pi)) (Num d) = Num y \<and> 0 \<le> y \<and>
                 \<bar>y - 2 * np_pi / d\<bar> \<le> max (2 * np_pi / d / 2 ^ 53) (1 / 2 ^ 1075) \<and>
                 num_steps_of rnd (Num d) = Inr \<lfloor>y\<rfloor> \<and>
                 (\<lfloor>y\<rfloor> = round y \<longleftrightarrow> frac y < 1 / 2)"
      using assms(2) y r
      by (intro exI [of _ y]) (simp add: num_steps_of_def quotient_eq py_int_def)
  }
qed


lemma num_steps_of_inf: "num_steps_of rnd PosInf = Inr 0"
  by (simp add: num_steps_of_def f64_div_def zero_of_def py_int_def np_pi_def)

text \<open>
  C9, as amended. For every finite \<open>\<delta>t > 0\<close>, with \<open>t\<close> the exact quotient
  \<open>2 * np.pi / \<delta>t\<close>: when \<open>t\<close> is below the overflow threshold the float quotient is a
  finite \<open>y \<ge> 0\<close> within the rounding error of \<open>t\<close> and the number of steps is \<open>y\<close> with
  its fractional part dropped (the floor of \<open>y\<close>), which is the nearest integer to \<open>y\<close>
  exactly when that fractional part is below one half; from the threshold on, \<open>int\<close>
  raises OverflowError. For \<open>\<delta>t\<close> the positive infinity the number of steps is zero.
\<close>

theorem num_steps_of_truncates:
  assumes "rounds rnd" "0 < d"
  shows "(overflow_threshold \<le> 2 * np_pi / d \<longrightarrow> num_steps_of rnd (Num d) = Inl OverflowError) \<and>
         (2 * np_pi / d < overflow_threshold \<longrightarrow>
            (\<exists>y. f64_div rnd (Num (2 * np_pi)) (Num d) = Num y \<and> 0 \<le> y \<and>
                 \<bar>y - 2 * np_pi / d\<bar> \<le> max (2 * np_pi / d / 2 ^ 53) (1 / 2 ^ 1075) \<and>
                 num_steps_of rnd (Num d) = Inr \<lfloor>y\<rfloor> \<and>
                 (\<lfloor>y\<rfloor> = round y \<longleftrightarrow> frac y < 1 / 2))) \<and>
         num_steps_of rnd PosInf = Inr 0"
  using num_steps_of_quotient [OF assms] num_steps_of_inf [of rnd] by blast

lemma overflow_threshold_large: "1000 < overflow_threshold"
proof -
  have "(2::real) ^ 970 * 2 \<le> 2 ^ 970 * 2 ^ 54"
    by (intro mult_left_mono) simp_all
  then have "(2::real) ^ 970 * 2 \<le> 2 ^ 1024"
    by (simp add: power_add [symmetric])
  moreover have "(1000::real) < 2 ^ 970"
  proof -
    have "(1000::real) < 2 ^ 10" by simp
    also have "\<dots> \<le> 2 ^ 970" by (intro power_increasing) simp_all
    finally show ?thesis .
  qed
  ultimately show ?thesis
    unfolding overflow_threshold_def by linarith
qed

lemma no_rounding_small: "\<bar>t\<bar> < 1000 \<Longrightarrow> no_rounding t = Num t"
  using overflow_threshold_large by (simp add: no_rounding_def)

text \<open>The time step of the notebook, the double nearest to 0.01, gives 628 steps.\<close>

theorem num_steps_of_truncates_witness:
  "rounds no_rounding \<and> (0::real) < 5764607523034235 / 576460752303423488 \<and>
   2 * np_pi / (5764607523034235 / 576460752303423488) < overflow_threshold \<and>
   num_steps_of no_rounding (Num (5764607523034235 / 576460752303423488)) = Inr 628"
proof -
  have t: "2 * np_pi / (5764607523034235 / 576460752303423488) < 1000"
    "0 \<le> 2 * np_pi / (5764607523034235 / 576460752303423488)"
    by (simp_all add: np_pi_def)
  have q: "f64_div no_rounding (Num (2 * np_pi)) (Num (5764607523034235 / 576460752303423488)) =
      Num (2 * np_pi / (5764607523034235 / 576460752303423488))"
    using t by (subst quotient_eq) (simp_all add: no_rounding_small)
  have f: "\<lfloor>2 * np_pi / (5764607523034235 / 576460752303423488)\<rfloor> = 628"
    by (simp add: np_pi_def floor_eq_iff)
  have b: "2 * np_pi / (5764607523034235 / 576460752303423488) < overflow_threshold"
    using t(1) overflow_threshold_large by linarith
  have d: "(0::real) < 5764607523034235 / 576460752303423488"
    by simp
  from num_steps_of_truncates [OF rounds_no_rounding d] b
  obtain y where "f64_div no_rounding (Num (2 * np_pi)) (Num (5764607523034235 / 576460752303423488)) = Num y"
    "num_steps_of no_rounding (Num (5764607523034235 / 576460752303423488)) = Inr \<lfloor>y\<rfloor>"
    by blast
  then have "num_steps_of no_rounding (Num (5764607523034235 / 576460752303423488)) = Inr 628"
    using q f by simp
  then show ?thesis
    using rounds_no_rounding b d by simp
qed

lemma num_steps_of_tenth:
  assumes "rounds rnd"
  shows "num_steps_of rnd (Num (3602879701896397 / 36028797018963968)) = Inr 62"
proof -
  let ?d = "3602879701896397 / 36028797018963968 :: real"
  let ?t = "2 * np_pi / ?d"
  have t: "628 / 10 < ?t" "?t < 629 / 10"
    by (simp_all add: np_pi_def)
  have b: "?t < overflow_threshold"
    using t overflow_threshold_large by linarith
  have d: "0 < ?d"
    by simp
  from num_steps_of_quotient [OF assms d] b obtain y where
    y: "\<bar>y - ?t\<bar> \<le> max (?t / 2 ^ 53) (1 / 2 ^ 1075)" "num_steps_of rnd (Num ?d) = Inr \<lfloor>y\<rfloor>"
    by blast
  have "?t / 2 ^ 53 \<le> 1 / 100"
    using t by (simp add: field_simps)
  moreover have "(1::real) / 2 ^ 1075 \<le> 1 / 100"
  proof -
    have "(100::real) \<le> 2 ^ 7" by simp
    also have "\<dots> \<le> 2 ^ 1075" by (intro power_increasing) simp_all
    finally show ?thesis by (simp add: field_simps)
  qed
  ultimately have "max (?t / 2 ^ 53) (1 / 2 ^ 1075) \<le> 1 / 100"
    by simp
  then have "\<bar>y - ?t\<bar> \<le> 1 / 100"
    using y(1) by linarith
  then have "62 \<le> y" "y < 63"
    using t by linarith+
  then have "\<lfloor>y\<rfloor> = 62"
    by (simp add: floor_eq_iff)
  then show ?thesis
    using y(2) by simp
qed

text \<open>
  C9 as stated fails: for \<open>\<delta>t\<close> the double nearest to 0.1 the quotient is about 62.83;
  whatever the rounding of the division, the number of steps is 62, and the nearest
  integer is 63.
\<close>

theorem num_steps_of_not_round:
  "rounds no_rounding \<and>
   num_steps_of no_rounding (Num (3602879701896397 / 36028797018963968)) = Inr 62 \<and>
   round (2 * np_pi / (3602879701896397 / 36028797018963968)) = 63 \<and>
   \<not> (\<exists>rnd. rounds rnd \<and> num_steps_of rnd (Num (3602879701896397 / 36028797018963968)) \<noteq> Inr 62)"
proof -
  have "round (2 * np_pi / (3602879701896397 / 36028797018963968)) = 63"
    by (simp add: np_pi_def round_def floor_eq_iff)
  then show ?thesis
    using rounds_no_rounding num_steps_of_tenth by blast
qed




section \<open>The quadratic form of the operator\<close>

lemma dot_min:
  fixes u v :: "real vec"
  shows "dot u v = (\<Sum>i<min (length u) (length v). u ! i * v ! i)"
proof -
  have "dot u v = sum_list (map2 (*) u v)"
    by (simp add: dot_def np_sum_sum_list)
  also have "\<dots> = (\<Sum>i = 0..<length (map2 (*) u v). map2 (*) u v ! i)"
    by (rule sum_list_sum_nth)
  also have "\<dots> = (\<Sum>i<min (length u) (length v). u ! i * v ! i)"
    by (simp add: atLeast0LessThan)
  finally show ?thesis .
qed

lemma dot_commute:
  fixes u v :: "real vec"
  shows "dot u v = dot v u"
  by (simp add: dot_min min.commute mult.commute)

lemma dot_vadd_left:
  fixes a b c :: "real vec"
  assumes "length a = length b"
  shows "dot (vadd a b) c = dot a c + dot b c"
proof -
  have "dot (vadd a b) c = (\<Sum>i<min (length b) (length c). (a ! i + b ! i) * c ! i)"
    unfolding dot_min using assms by (intro sum.cong) (simp_all add: nth_vadd)
  then show ?thesis
    using assms by (simp add: dot_min distrib_right sum.distrib)
qed

lemma dot_vsub_left:
  fixes a b c :: "real vec"
  assumes "length a = length b"
  shows "dot (vsub a b) c = dot a c - dot b c"
proof -
  have "dot (vsub a b) c = (\<Sum>i<min (length b) (length c). (a ! i - b ! i) * c ! i)"
    unfolding dot_min using assms by (intro sum.cong) (simp_all add: nth_vsub)
  then show ?thesis
    using assms by (simp add: dot_min left_diff_distrib sum_subtractf)
qed

lemma dot_smul_left:
  fixes a c :: "real vec"
  shows "dot (smul k a) c = k * dot a c"
proof -
  have "dot (smul k a) c = (\<Sum>i<min (length a) (length c). k * a ! i * c ! i)"
    unfolding dot_min by (intro sum.cong) (simp_all add: nth_smul)
  then show ?thesis
    by (simp add: dot_min sum_distrib_left mult.assoc)
qed

lemma dot_vadd_right:
  fixes a b c :: "real vec"
  shows "length a = length b \<Longrightarrow> dot c (vadd a b) = dot c a + dot c b"
  using dot_vadd_left [of a b c] by (simp add: dot_commute)

lemma dot_vsub_right:
  fixes a b c :: "real vec"
  shows "length a = length b \<Longrightarrow> dot c (vsub a b) = dot c a - dot c b"
  using dot_vsub_left [of a b c] by (simp add: dot_commute)

lemma dot_smul_right:
  fixes a c :: "real vec"
  shows "dot c (smul k a) = k * dot c a"
  using dot_smul_left [of k a c] by (simp add: dot_commute)

lemma dot_self_nonneg:
  fixes u :: "real vec"
  shows "0 \<le> dot u u"
  by (simp add: dot_min sum_nonneg)

lemma kinetic_energy_dot:
  fixes p :: "real vec"
  shows "kinetic_energy p = dot p p / 2"
proof -
  have "map2 (*) p p = map (\<lambda>x. x ^ 2) p"
    by (simp add: zip_same_conv_map power2_eq_square)
  then show ?thesis
    by (simp add: kinetic_energy_def dot_def)
qed

lemma mat_vec_mat_mul:
  fixes A B :: "real mat"
  assumes A: "square n A" and B: "square n B" and v: "length v = n"
  shows "mat_vec (mat_mul A B) v = mat_vec A (mat_vec B v)"
proof (rule nth_equalityI)
  show "length (mat_vec (mat_mul A B) v) = length (mat_vec A (mat_vec B v))"
    by (simp add: mat_mul_def)
next
  fix i assume "i < length (mat_vec (mat_mul A B) v)"
  then have i: "i < n" using A by (simp add: mat_mul_def square_def)
  have Bv: "length (mat_vec B v) = n" using B by (simp add: square_def)
  have "mat_vec (mat_mul A B) v ! i = (\<Sum>j<n. mat_mul A B ! i ! j * v ! j)"
    using mat_vec_sum [OF square_mat_mul [OF A B] v i] .
  also have "\<dots> = (\<Sum>j<n. \<Sum>k<n. A ! i ! k * B ! k ! j * v ! j)"
    using A B i by (intro sum.cong) (simp_all add: nth_mat_mul sum_distrib_right)
  also have "\<dots> = (\<Sum>k<n. \<Sum>j<n. A ! i ! k * B ! k ! j * v ! j)"
    by (rule sum.swap)
  also have "\<dots> = (\<Sum>k<n. A ! i ! k * mat_vec B v ! k)"
    using B v by (intro sum.cong) (simp_all add: mat_vec_sum sum_distrib_left mult.assoc)
  also have "\<dots> = mat_vec A (mat_vec B v) ! i"
    using mat_vec_sum [OF A Bv i] by simp
  finally show "mat_vec (mat_mul A B) v ! i = mat_vec A (mat_vec B v) ! i" .
qed

lemma dot_transpose_m:
  fixes A :: "real mat"
  assumes A: "square n A" and u: "length u = n" and v: "length v = n"
  shows "dot (mat_vec (transpose_m A) u) v = dot u (mat_vec A v)"
proof -
  have lA: "length A = n" using A by (simp add: square_def)
  have lT: "length (transpose_m A) = n" using square_transpose_m [OF A] by (simp add: square_def)
  have "dot (mat_vec (transpose_m A) u) v = (\<Sum>i<n. mat_vec (transpose_m A) u ! i * v ! i)"
    using lT v by (simp add: dot_min)
  also have "\<dots> = (\<Sum>i<n. \<Sum>k<n. A ! k ! i * u ! k * v ! i)"
  proof (intro sum.cong refl)
    fix i assume "i \<in> {..<n}"
    then have i: "i < n" by simp
    have "mat_vec (transpose_m A) u ! i = (\<Sum>k<n. transpose_m A ! i ! k * u ! k)"
      using mat_vec_sum [OF square_transpose_m [OF A] u i] .
    also have "\<dots> = (\<Sum>k<n. A ! k ! i * u ! k)"
      using A i by (intro sum.cong) (simp_all add: nth_transpose_m)
    finally show "mat_vec (transpose_m A) u ! i * v ! i = (\<Sum>k<n. A ! k ! i * u ! k * v ! i)"
      by (simp add: sum_distrib_right)
  qed
  also have "\<dots> = (\<Sum>k<n. \<Sum>i<n. A ! k ! i * u ! k * v ! i)"
    by (rule sum.swap)
  also have "\<dots> = (\<Sum>k<n. u ! k * mat_vec A v ! k)"
    using A v by (intro sum.cong) (simp_all add: mat_vec_sum sum_distrib_left mult_ac)
  also have "\<dots> = dot u (mat_vec A v)"
    using lA u by (simp add: dot_min)
  finally show ?thesis .
qed

lemma L_mat_form:
  fixes u v :: "real vec"
  assumes u: "length u = n" and v: "length v = n"
  shows "dot (mat_vec (L_mat n) u) v = dot (mat_vec (D_mat n) u) (mat_vec (D_mat n) v)"
proof -
  have sq: "square n (D_mat n :: real mat)"
    by (rule square_D_mat)
  have Du: "length (mat_vec (D_mat n) u :: real vec) = n"
    using sq by (simp add: square_def)
  have "mat_vec (L_mat n) u = mat_vec (transpose_m (D_mat n)) (mat_vec (D_mat n) u)"
    unfolding L_mat_DtD
    by (rule mat_vec_mat_mul [OF square_transpose_m [OF sq] sq u])
  then show ?thesis
    using dot_transpose_m [OF sq Du v] by simp
qed

lemma L_mat_symmetric:
  fixes u v :: "real vec"
  assumes "length u = n" "length v = n"
  shows "dot (mat_vec (L_mat n) u) v = dot (mat_vec (L_mat n) v) u"
  using L_mat_form [OF assms] L_mat_form [OF assms(2) assms(1)] by (simp add: dot_commute)

lemma L_mat_semidefinite:
  fixes u :: "real vec"
  assumes "length u = n"
  shows "0 \<le> dot (mat_vec (L_mat n) u) u"
  using L_mat_form [OF assms assms] by (simp add: dot_self_nonneg)

section \<open>The energy under the two Euler schemes\<close>

lemma feuler_energy:
  fixes q p :: "real vec"
  assumes L: "square n L" and q: "length q = n" and p: "length p = n"
    and sym: "dot (mat_vec L p) q = dot (mat_vec L q) p"
  shows "total_energy L (feuler_step \<delta>t L (q, p)) =
    total_energy L (q, p) + \<delta>t ^ 2 / 2 * (dot (mat_vec L q) (mat_vec L q) + dot (mat_vec L p) p)"
proof -
  define Lq where "Lq = mat_vec L q"
  define Lp where "Lp = mat_vec L p"
  have lLq: "length Lq = n" and lLp: "length Lp = n"
    using L by (simp_all add: Lq_def Lp_def square_def)
  have step: "feuler_step \<delta>t L (q, p) = (vadd q (smul \<delta>t p), vsub p (smul \<delta>t Lq))"
    by (simp add: feuler_step_def Let_def velocity_def potential_gradient_def Lq_def)
  have lin: "mat_vec L (vadd q (smul \<delta>t p)) = vadd Lq (smul \<delta>t Lp)"
    using mat_vec_vadd [OF L q, of "smul \<delta>t p"] mat_vec_smul [OF L p, of \<delta>t] p
    by (simp add: Lq_def Lp_def)
  have K: "dot (vsub p (smul \<delta>t Lq)) (vsub p (smul \<delta>t Lq)) =
      dot p p - 2 * \<delta>t * dot Lq p + \<delta>t ^ 2 * dot Lq Lq"
    using p lLq
    by (simp add: dot_vsub_left dot_vsub_right dot_smul_left dot_smul_right
        dot_commute [of p Lq] power2_eq_square algebra_simps)
  have U: "dot (vadd Lq (smul \<delta>t Lp)) (vadd q (smul \<delta>t p)) =
      dot Lq q + 2 * \<delta>t * dot Lq p + \<delta>t ^ 2 * dot Lp p"
    using p q lLq lLp sym
    by (simp add: dot_vadd_left dot_vadd_right dot_smul_left dot_smul_right
        Lq_def [symmetric] Lp_def [symmetric] power2_eq_square algebra_simps)
  show ?thesis
    unfolding step total_energy_def
    by (simp add: kinetic_energy_dot potential_energy_def lin K U
        Lq_def [symmetric] Lp_def [symmetric] field_simps)
qed

lemma length_feuler_step:
  assumes "length L = n" "length q = n" "length p = n"
  shows "length (fst (feuler_step \<delta>t L (q, p))) = n \<and> length (snd (feuler_step \<delta>t L (q, p))) = n"
  using assms by (simp add: feuler_step_def Let_def velocity_def potential_gradient_def)

lemma length_beuler_step:
  assumes "square n L" "length q = n" "length p = n"
    and "solves spsolve n (madd (eye n) (msmul (\<delta>t ^ 2) L))"
  shows "length (fst (beuler_step spsolve n \<delta>t L (q, p))) = n \<and>
         length (snd (beuler_step spsolve n \<delta>t L (q, p))) = n"
proof -
  have "length (vsub p (mat_vec (msmul \<delta>t L) q)) = n"
    using assms by (simp add: msmul_def square_def)
  then have "length (spsolve (madd (eye n) (msmul (\<delta>t ^ 2) L)) (vsub p (mat_vec (msmul \<delta>t L) q))) = n"
    using assms(4) unfolding solves_def by blast
  then show ?thesis
    using assms by (simp add: beuler_step_def Let_def)
qed

lemma feuler_energy_L_mat:
  fixes q p :: "real vec"
  assumes "length q = n" "length p = n"
  shows "total_energy (L_mat n) (feuler_step \<delta>t (L_mat n) (q, p)) - total_energy (L_mat n) (q, p) =
    \<delta>t ^ 2 / 2 * (dot (mat_vec (L_mat n) q) (mat_vec (L_mat n) q) + dot (mat_vec (L_mat n) p) p)"
  using feuler_energy [OF square_L_mat assms L_mat_symmetric [OF assms(2) assms(1)], of \<delta>t]
  by simp

lemma feuler_energy_mono:
  fixes q p :: "real vec"
  assumes "length q = n" "length p = n"
  shows "total_energy (L_mat n) (q, p) \<le> total_energy (L_mat n) (feuler_step \<delta>t (L_mat n) (q, p))"
proof -
  have "0 \<le> \<delta>t ^ 2 / 2 * (dot (mat_vec (L_mat n) q) (mat_vec (L_mat n) q) + dot (mat_vec (L_mat n) p) p)"
    using L_mat_semidefinite [OF assms(2)] dot_self_nonneg [of "mat_vec (L_mat n) q"]
    by (intro mult_nonneg_nonneg) simp_all
  then show ?thesis
    using feuler_energy_L_mat [OF assms, of \<delta>t] by linarith
qed


lemma beuler_energy_L_mat:
  fixes q p :: "real vec"
  assumes q: "length q = n" and p: "length p = n"
    and s: "solves spsolve n (madd (eye n) (msmul (\<delta>t ^ 2) (L_mat n)))"
  shows "total_energy (L_mat n) (q, p) - total_energy (L_mat n) (beuler_step spsolve n \<delta>t (L_mat n) (q, p)) =
    \<delta>t ^ 2 / 2 *
      (dot (mat_vec (L_mat n) (fst (beuler_step spsolve n \<delta>t (L_mat n) (q, p))))
           (mat_vec (L_mat n) (fst (beuler_step spsolve n \<delta>t (L_mat n) (q, p)))) +
       dot (mat_vec (L_mat n) (snd (beuler_step spsolve n \<delta>t (L_mat n) (q, p))))
           (snd (beuler_step spsolve n \<delta>t (L_mat n) (q, p))))"
proof -
  define q' where "q' = fst (beuler_step spsolve n \<delta>t (L_mat n) (q, p))"
  define p' where "p' = snd (beuler_step spsolve n \<delta>t (L_mat n) (q, p))"
  have st: "beuler_step spsolve n \<delta>t (L_mat n) (q, p) = (q', p')"
    by (simp add: q'_def p'_def)
  have len: "length q' = n" "length p' = n"
    using length_beuler_step [OF square_L_mat q p s] by (simp_all add: q'_def p'_def)
  have "implicit_euler \<delta>t (L_mat n) (q, p) (q', p')"
    using beuler_step_satisfies [OF square_L_mat q p s] by (simp add: st)
  then have eq: "q' = vadd q (smul \<delta>t p')" "p' = vsub p (smul \<delta>t (mat_vec (L_mat n) q'))"
    unfolding implicit_euler_def fst_conv snd_conv by blast+
  have lL: "length (L_mat n :: real mat) = n"
    using square_L_mat [of n] by (simp add: square_def)
  have "vadd q' (smul (- \<delta>t) p') = q"
    by (subst eq(1)) (rule vadd_smul_cancel, simp add: q len)
  moreover have "vsub p' (smul (- \<delta>t) (mat_vec (L_mat n) q')) = p"
    by (subst eq(2)) (rule vsub_smul_cancel, simp add: p lL)
  ultimately have "feuler_step (- \<delta>t) (L_mat n) (q', p') = (q, p)"
    by (simp add: feuler_step_def Let_def velocity_def potential_gradient_def)
  then show ?thesis
    using feuler_energy_L_mat [OF len, of "- \<delta>t"] by (simp add: st)
qed

lemma beuler_energy_mono:
  fixes q p :: "real vec"
  assumes q: "length q = n" and p: "length p = n"
    and s: "solves spsolve n (madd (eye n) (msmul (\<delta>t ^ 2) (L_mat n)))"
  shows "total_energy (L_mat n) (beuler_step spsolve n \<delta>t (L_mat n) (q, p)) \<le> total_energy (L_mat n) (q, p)"
proof -
  have len: "length (snd (beuler_step spsolve n \<delta>t (L_mat n) (q, p))) = n"
    using length_beuler_step [OF square_L_mat q p s] by simp
  have "0 \<le> \<delta>t ^ 2 / 2 *
      (dot (mat_vec (L_mat n) (fst (beuler_step spsolve n \<delta>t (L_mat n) (q, p))))
           (mat_vec (L_mat n) (fst (beuler_step spsolve n \<delta>t (L_mat n) (q, p)))) +
       dot (mat_vec (L_mat n) (snd (beuler_step spsolve n \<delta>t (L_mat n) (q, p))))
           (snd (beuler_step spsolve n \<delta>t (L_mat n) (q, p))))"
    using L_mat_semidefinite [OF len]
      dot_self_nonneg [of "mat_vec (L_mat n) (fst (beuler_step spsolve n \<delta>t (L_mat n) (q, p)))"]
    by (intro mult_nonneg_nonneg) simp_all
  then show ?thesis
    using beuler_energy_L_mat [OF assms] by linarith
qed

lemma length_funpow_feuler:
  fixes q0 p0 :: "real vec"
  assumes "length q0 = n" "length p0 = n"
  shows "length (fst ((feuler_step \<delta>t (L_mat n) ^^ k) (q0, p0))) = n \<and>
         length (snd ((feuler_step \<delta>t (L_mat n) ^^ k) (q0, p0))) = n"
proof (induction k)
  case 0
  then show ?case using assms by simp
next
  case (Suc k)
  have "length (L_mat n :: real mat) = n"
    using square_L_mat [of n] by (simp add: square_def)
  then show ?case
    using length_feuler_step [of "L_mat n" n "fst ((feuler_step \<delta>t (L_mat n) ^^ k) (q0, p0))"
        "snd ((feuler_step \<delta>t (L_mat n) ^^ k) (q0, p0))" \<delta>t] Suc
    by simp
qed

lemma length_funpow_beuler:
  fixes q0 p0 :: "real vec"
  assumes "length q0 = n" "length p0 = n"
    and s: "solves spsolve n (madd (eye n) (msmul (\<delta>t ^ 2) (L_mat n)))"
  shows "length (fst ((beuler_step spsolve n \<delta>t (L_mat n) ^^ k) (q0, p0))) = n \<and>
         length (snd ((beuler_step spsolve n \<delta>t (L_mat n) ^^ k) (q0, p0))) = n"
proof (induction k)
  case 0
  then show ?case using assms by simp
next
  case (Suc k)
  then show ?case
    using length_beuler_step [OF square_L_mat _ _ s,
        of "fst ((beuler_step spsolve n \<delta>t (L_mat n) ^^ k) (q0, p0))"
        "snd ((beuler_step spsolve n \<delta>t (L_mat n) ^^ k) (q0, p0))"]
    by simp
qed

lemma feuler_funpow_mono:
  fixes q0 p0 :: "real vec"
  assumes "length q0 = n" "length p0 = n"
  shows "total_energy (L_mat n) ((feuler_step \<delta>t (L_mat n) ^^ k) (q0, p0)) \<le>
         total_energy (L_mat n) ((feuler_step \<delta>t (L_mat n) ^^ Suc k) (q0, p0))"
  using feuler_energy_mono [of "fst ((feuler_step \<delta>t (L_mat n) ^^ k) (q0, p0))" n
      "snd ((feuler_step \<delta>t (L_mat n) ^^ k) (q0, p0))" \<delta>t]
    length_funpow_feuler [OF assms, where \<delta>t = \<delta>t and k = k]
  by simp

lemma beuler_funpow_mono:
  fixes q0 p0 :: "real vec"
  assumes "length q0 = n" "length p0 = n"
    and s: "solves spsolve n (madd (eye n) (msmul (\<delta>t ^ 2) (L_mat n)))"
  shows "total_energy (L_mat n) ((beuler_step spsolve n \<delta>t (L_mat n) ^^ Suc k) (q0, p0)) \<le>
         total_energy (L_mat n) ((beuler_step spsolve n \<delta>t (L_mat n) ^^ k) (q0, p0))"
  using beuler_energy_mono [of "fst ((beuler_step spsolve n \<delta>t (L_mat n) ^^ k) (q0, p0))" n
      "snd ((beuler_step spsolve n \<delta>t (L_mat n) ^^ k) (q0, p0))" spsolve \<delta>t]
    length_funpow_beuler [OF assms, where k = k] s
  by simp

lemma feuler_energy_strict:
  fixes q p :: "real vec"
  assumes "length q = n" "length p = n"
  shows "total_energy (L_mat n) (q, p) < total_energy (L_mat n) (feuler_step \<delta>t (L_mat n) (q, p)) \<longleftrightarrow>
    \<delta>t \<noteq> 0 \<and> dot (mat_vec (L_mat n) q) (mat_vec (L_mat n) q) + dot (mat_vec (L_mat n) p) p \<noteq> 0"
proof -
  define S where "S = dot (mat_vec (L_mat n) q) (mat_vec (L_mat n) q) + dot (mat_vec (L_mat n) p) p"
  have S: "0 \<le> S"
    unfolding S_def
    using L_mat_semidefinite [OF assms(2)] dot_self_nonneg [of "mat_vec (L_mat n) q"] by simp
  have "total_energy (L_mat n) (feuler_step \<delta>t (L_mat n) (q, p)) - total_energy (L_mat n) (q, p) =
      \<delta>t ^ 2 / 2 * S"
    unfolding S_def by (rule feuler_energy_L_mat [OF assms])
  then have "total_energy (L_mat n) (q, p) < total_energy (L_mat n) (feuler_step \<delta>t (L_mat n) (q, p)) \<longleftrightarrow>
      0 < \<delta>t ^ 2 / 2 * S"
    by linarith
  also have "\<dots> \<longleftrightarrow> \<delta>t \<noteq> 0 \<and> S \<noteq> 0"
    using S by (auto simp add: zero_less_mult_iff)
  finally show ?thesis
    unfolding S_def .
qed

lemma dot_self_zero:
  fixes u :: "real vec"
  assumes "dot u u = 0"
  shows "u = replicate (length u) 0"
proof (rule nth_equalityI)
  show "length u = length (replicate (length u) (0::real))" by simp
next
  fix i assume i: "i < length u"
  have "(\<Sum>i<length u. u ! i * u ! i) = 0"
    using assms by (simp add: dot_min)
  then have "\<forall>i\<in>{..<length u}. u ! i * u ! i = 0"
    by (subst (asm) sum_nonneg_eq_0_iff) simp_all
  then show "u ! i = replicate (length u) 0 ! i"
    using i by simp
qed

lemma mat_vec_zero:
  fixes A :: "real mat"
  assumes "square n A"
  shows "mat_vec A (replicate n 0) = replicate n 0"
proof (rule nth_equalityI)
  show "length (mat_vec A (replicate n 0)) = length (replicate n (0::real))"
    using assms by (simp add: square_def)
next
  fix i assume "i < length (mat_vec A (replicate n 0))"
  then have i: "i < n" using assms by (simp add: square_def)
  have "mat_vec A (replicate n 0) ! i = (\<Sum>j<n. A ! i ! j * replicate n 0 ! j)"
    using mat_vec_sum [OF assms _ i, of "replicate n 0"] by simp
  also have "\<dots> = 0"
    by (rule sum.neutral) simp
  finally show "mat_vec A (replicate n 0) ! i = replicate n 0 ! i"
    using i by simp
qed

lemma L_mat_apply:
  fixes u :: "real vec"
  assumes "length u = n"
  shows "mat_vec (L_mat n) u = mat_vec (transpose_m (D_mat n)) (mat_vec (D_mat n) u)"
proof -
  have sq: "square n (D_mat n :: real mat)"
    by (rule square_D_mat)
  show ?thesis
    unfolding L_mat_DtD
    by (rule mat_vec_mat_mul [OF square_transpose_m [OF sq] sq assms])
qed

lemma L_mat_null:
  fixes u :: "real vec"
  assumes u: "length u = n" and z: "dot (mat_vec (L_mat n) u) u = 0"
  shows "mat_vec (L_mat n) u = replicate n 0"
proof -
  have sq: "square n (D_mat n :: real mat)"
    by (rule square_D_mat)
  have "dot (mat_vec (D_mat n) u) (mat_vec (D_mat n) u) = 0"
    using L_mat_form [OF u u] z by simp
  then have "mat_vec (D_mat n) u = replicate (length (mat_vec (D_mat n) u)) 0"
    by (rule dot_self_zero)
  then have "mat_vec (D_mat n) u = replicate n 0"
    using sq by (simp add: square_def)
  then show ?thesis
    using L_mat_apply [OF u] mat_vec_zero [OF square_transpose_m [OF sq]] by simp
qed

lemma drift_nonneg:
  fixes q p :: "real vec"
  assumes "length p = n"
  shows "0 \<le> drift (L_mat n) (q, p)"
  unfolding drift_def
  using L_mat_semidefinite [OF assms] dot_self_nonneg [of "mat_vec (L_mat n) q"] by simp

lemma drift_zero_iff:
  fixes q p :: "real vec"
  assumes q: "length q = n" and p: "length p = n"
  shows "drift (L_mat n) (q, p) = 0 \<longleftrightarrow>
    mat_vec (L_mat n) q = replicate n 0 \<and> mat_vec (L_mat n) p = replicate n 0"
proof
  assume d: "drift (L_mat n) (q, p) = 0"
  have lL: "length (L_mat n :: real mat) = n"
    using square_L_mat [of n] by (simp add: square_def)
  have a: "0 \<le> dot (mat_vec (L_mat n) q) (mat_vec (L_mat n) q)"
    by (rule dot_self_nonneg)
  have b: "0 \<le> dot (mat_vec (L_mat n) p) p"
    by (rule L_mat_semidefinite [OF p])
  from d a b have 1: "dot (mat_vec (L_mat n) q) (mat_vec (L_mat n) q) = 0"
    and 2: "dot (mat_vec (L_mat n) p) p = 0"
    unfolding drift_def fst_conv snd_conv by linarith+
  have "mat_vec (L_mat n) q = replicate (length (mat_vec (L_mat n) q)) 0"
    using 1 by (rule dot_self_zero)
  then have "mat_vec (L_mat n) q = replicate n 0"
    using lL by simp
  moreover have "mat_vec (L_mat n) p = replicate n 0"
    using L_mat_null [OF p 2] .
  ultimately show "mat_vec (L_mat n) q = replicate n 0 \<and> mat_vec (L_mat n) p = replicate n 0"
    by simp
next
  assume "mat_vec (L_mat n) q = replicate n 0 \<and> mat_vec (L_mat n) p = replicate n 0"
  then show "drift (L_mat n) (q, p) = 0"
    by (simp add: drift_def dot_min)
qed

lemma vadd_zero_right:
  fixes u :: "real vec"
  shows "length u = n \<Longrightarrow> vadd u (replicate n 0) = u"
  by (intro nth_equalityI) (simp_all add: nth_vadd)

lemma vsub_zero_right:
  fixes u :: "real vec"
  shows "length u = n \<Longrightarrow> vsub u (replicate n 0) = u"
  by (intro nth_equalityI) (simp_all add: nth_vsub)

lemma smul_zero: "smul c (replicate n (0::real)) = replicate n 0"
  by (simp add: smul_def)

lemma drift_feuler_zero:
  fixes q p :: "real vec"
  assumes q: "length q = n" and p: "length p = n" and d: "drift (L_mat n) (q, p) = 0"
  shows "drift (L_mat n) (feuler_step \<delta>t (L_mat n) (q, p)) = 0"
proof -
  have z: "mat_vec (L_mat n) q = replicate n 0" "mat_vec (L_mat n) p = replicate n 0"
    using drift_zero_iff [OF q p] d by simp_all
  have step: "feuler_step \<delta>t (L_mat n) (q, p) = (vadd q (smul \<delta>t p), p)"
    using p by (simp add: feuler_step_def Let_def velocity_def potential_gradient_def z smul_zero
        vsub_zero_right)
  have "mat_vec (L_mat n) (vadd q (smul \<delta>t p)) = replicate n 0"
    using mat_vec_vadd [OF square_L_mat q, of "smul \<delta>t p"] mat_vec_smul [OF square_L_mat p, of \<delta>t] p
    by (simp add: z smul_zero vadd_zero_right)
  then show ?thesis
    using q p z by (simp add: step drift_zero_iff)
qed

lemma mat_vec_vsub:
  fixes A :: "real mat"
  assumes "square n A" "length u = n" "length v = n"
  shows "mat_vec A (vsub u v) = vsub (mat_vec A u) (mat_vec A v)"
proof (rule nth_equalityI)
  show "length (mat_vec A (vsub u v)) = length (vsub (mat_vec A u) (mat_vec A v))" by simp
next
  fix i assume "i < length (mat_vec A (vsub u v))"
  then have i: "i < n" using assms by (simp add: square_def)
  have "mat_vec A (vsub u v) ! i = (\<Sum>j<n. A ! i ! j * (u ! j - v ! j))"
    using assms i by (simp add: mat_vec_sum nth_vsub)
  also have "\<dots> = mat_vec A u ! i - mat_vec A v ! i"
    using assms i by (simp add: mat_vec_sum right_diff_distrib sum_subtractf)
  finally show "mat_vec A (vsub u v) ! i = vsub (mat_vec A u) (mat_vec A v) ! i"
    using assms i by (simp add: nth_vsub square_def)
qed

lemma drift_feuler_nonzero:
  fixes q p :: "real vec"
  assumes q: "length q = n" and p: "length p = n"
    and d: "drift (L_mat n) (feuler_step \<delta>t (L_mat n) (q, p)) = 0"
  shows "drift (L_mat n) (q, p) = 0"
proof -
  define Lq where "Lq = mat_vec (L_mat n) q"
  define Lp where "Lp = mat_vec (L_mat n) p"
  define LLq where "LLq = mat_vec (L_mat n) Lq"
  have sq: "square n (L_mat n :: real mat)"
    by (rule square_L_mat)
  have lLq: "length Lq = n" and lLp: "length Lp = n" and lLLq: "length LLq = n"
    using sq by (simp_all add: Lq_def Lp_def LLq_def square_def)
  have step: "feuler_step \<delta>t (L_mat n) (q, p) = (vadd q (smul \<delta>t p), vsub p (smul \<delta>t Lq))"
    by (simp add: feuler_step_def Let_def velocity_def potential_gradient_def Lq_def)
  have l1: "length (vadd q (smul \<delta>t p)) = n" "length (vsub p (smul \<delta>t Lq)) = n"
    using q p lLq by simp_all
  have z: "mat_vec (L_mat n) (vadd q (smul \<delta>t p)) = replicate n 0"
      "mat_vec (L_mat n) (vsub p (smul \<delta>t Lq)) = replicate n 0"
    using drift_zero_iff [OF l1] d by (simp_all add: step)
  have e1: "vadd Lq (smul \<delta>t Lp) = replicate n 0"
    using mat_vec_vadd [OF sq q, of "smul \<delta>t p"] mat_vec_smul [OF sq p, of \<delta>t] p z(1)
    by (simp add: Lq_def Lp_def)
  have e2: "vsub Lp (smul \<delta>t LLq) = replicate n 0"
    using mat_vec_vsub [OF sq p, of "smul \<delta>t Lq"] mat_vec_smul [OF sq lLq, of \<delta>t] lLq z(2)
    by (simp add: Lp_def LLq_def)
  have "dot (vadd Lq (smul \<delta>t Lp)) Lq = 0"
    by (simp add: e1 dot_min)
  then have a: "dot Lq Lq + \<delta>t * dot Lp Lq = 0"
    using lLq lLp by (simp add: dot_vadd_left dot_smul_left)
  have "dot (vsub Lp (smul \<delta>t LLq)) (smul \<delta>t Lq) = 0"
    by (simp add: e2 dot_min)
  then have b: "\<delta>t * dot Lp Lq - \<delta>t ^ 2 * dot LLq Lq = 0"
    using lLp lLLq
    by (simp add: dot_vsub_left dot_smul_left dot_smul_right power2_eq_square algebra_simps)
  have "0 \<le> dot LLq Lq"
    unfolding LLq_def by (rule L_mat_semidefinite [OF lLq])
  then have "0 \<le> \<delta>t ^ 2 * dot LLq Lq"
    by simp
  moreover have "0 \<le> dot Lq Lq"
    by (rule dot_self_nonneg)
  ultimately have "dot Lq Lq = 0"
    using a b by linarith
  then have "Lq = replicate (length Lq) 0"
    by (rule dot_self_zero)
  then have Lq0: "Lq = replicate n 0"
    using lLq by simp
  have "LLq = replicate n 0"
    unfolding LLq_def Lq0 by (rule mat_vec_zero [OF sq])
  then have "Lp = replicate n 0"
    using e2 lLp by (simp add: smul_zero vsub_zero_right)
  then show ?thesis
    using Lq0 drift_zero_iff [OF q p] by (simp add: Lq_def Lp_def)
qed


lemma feuler_energy_drift:
  fixes q p :: "real vec"
  assumes "length q = n" "length p = n"
  shows "total_energy (L_mat n) (feuler_step \<delta>t (L_mat n) (q, p)) - total_energy (L_mat n) (q, p) =
    \<delta>t ^ 2 / 2 * drift (L_mat n) (q, p)"
  using feuler_energy_L_mat [OF assms] by (simp add: drift_def)

lemma feuler_energy_less:
  fixes q p :: "real vec"
  assumes "length q = n" "length p = n"
  shows "total_energy (L_mat n) (q, p) < total_energy (L_mat n) (feuler_step \<delta>t (L_mat n) (q, p)) \<longleftrightarrow>
    \<delta>t \<noteq> 0 \<and> drift (L_mat n) (q, p) \<noteq> 0"
  using feuler_energy_strict [OF assms] by (simp add: drift_def)

lemma beuler_energy_less:
  fixes q p :: "real vec"
  assumes q: "length q = n" and p: "length p = n"
    and s: "solves spsolve n (madd (eye n) (msmul (\<delta>t ^ 2) (L_mat n)))"
  shows "total_energy (L_mat n) (beuler_step spsolve n \<delta>t (L_mat n) (q, p)) < total_energy (L_mat n) (q, p) \<longleftrightarrow>
    \<delta>t \<noteq> 0 \<and> drift (L_mat n) (q, p) \<noteq> 0"
    and "drift (L_mat n) (beuler_step spsolve n \<delta>t (L_mat n) (q, p)) = 0 \<longleftrightarrow> drift (L_mat n) (q, p) = 0"
proof -
  define q' where "q' = fst (beuler_step spsolve n \<delta>t (L_mat n) (q, p))"
  define p' where "p' = snd (beuler_step spsolve n \<delta>t (L_mat n) (q, p))"
  have st: "beuler_step spsolve n \<delta>t (L_mat n) (q, p) = (q', p')"
    by (simp add: q'_def p'_def)
  have len: "length q' = n" "length p' = n"
    using length_beuler_step [OF square_L_mat q p s] by (simp_all add: q'_def p'_def)
  have "implicit_euler \<delta>t (L_mat n) (q, p) (q', p')"
    using beuler_step_satisfies [OF square_L_mat q p s] by (simp add: st)
  then have eq: "q' = vadd q (smul \<delta>t p')" "p' = vsub p (smul \<delta>t (mat_vec (L_mat n) q'))"
    unfolding implicit_euler_def fst_conv snd_conv by blast+
  have lL: "length (L_mat n :: real mat) = n"
    using square_L_mat [of n] by (simp add: square_def)
  have "vadd q' (smul (- \<delta>t) p') = q"
    by (subst eq(1)) (rule vadd_smul_cancel, simp add: q len)
  moreover have "vsub p' (smul (- \<delta>t) (mat_vec (L_mat n) q')) = p"
    by (subst eq(2)) (rule vsub_smul_cancel, simp add: p lL)
  ultimately have undo: "feuler_step (- \<delta>t) (L_mat n) (q', p') = (q, p)"
    by (simp add: feuler_step_def Let_def velocity_def potential_gradient_def)
  show d: "drift (L_mat n) (beuler_step spsolve n \<delta>t (L_mat n) (q, p)) = 0 \<longleftrightarrow> drift (L_mat n) (q, p) = 0"
    using drift_feuler_zero [OF len, of "- \<delta>t"] drift_feuler_nonzero [OF len, of "- \<delta>t"]
    by (auto simp add: undo st)
  have "total_energy (L_mat n) (q', p') < total_energy (L_mat n) (q, p) \<longleftrightarrow>
      - \<delta>t \<noteq> 0 \<and> drift (L_mat n) (q', p') \<noteq> 0"
    using feuler_energy_less [OF len, of "- \<delta>t"] by (simp add: undo)
  then show "total_energy (L_mat n) (beuler_step spsolve n \<delta>t (L_mat n) (q, p)) < total_energy (L_mat n) (q, p) \<longleftrightarrow>
    \<delta>t \<noteq> 0 \<and> drift (L_mat n) (q, p) \<noteq> 0"
    using d by (simp add: st)
qed

lemma drift_funpow_feuler:
  fixes q0 p0 :: "real vec"
  assumes "length q0 = n" "length p0 = n" "drift (L_mat n) (q0, p0) \<noteq> 0"
  shows "drift (L_mat n) ((feuler_step \<delta>t (L_mat n) ^^ k) (q0, p0)) \<noteq> 0"
proof (induction k)
  case 0
  then show ?case using assms by simp
next
  case (Suc k)
  show ?case
    using drift_feuler_nonzero [of "fst ((feuler_step \<delta>t (L_mat n) ^^ k) (q0, p0))" n
        "snd ((feuler_step \<delta>t (L_mat n) ^^ k) (q0, p0))" \<delta>t]
      length_funpow_feuler [OF assms(1,2), where \<delta>t = \<delta>t and k = k] Suc
    by auto
qed

lemma drift_funpow_beuler:
  fixes q0 p0 :: "real vec"
  assumes "length q0 = n" "length p0 = n" "drift (L_mat n) (q0, p0) \<noteq> 0"
    and s: "solves spsolve n (madd (eye n) (msmul (\<delta>t ^ 2) (L_mat n)))"
  shows "drift (L_mat n) ((beuler_step spsolve n \<delta>t (L_mat n) ^^ k) (q0, p0)) \<noteq> 0"
proof (induction k)
  case 0
  then show ?case using assms by simp
next
  case (Suc k)
  show ?case
    using beuler_energy_less(2) [of "fst ((beuler_step spsolve n \<delta>t (L_mat n) ^^ k) (q0, p0))" n
        "snd ((beuler_step spsolve n \<delta>t (L_mat n) ^^ k) (q0, p0))" spsolve \<delta>t]
      length_funpow_beuler [OF assms(1,2) s, where k = k] Suc s
    by auto
qed

lemma feuler_funpow_less:
  fixes q0 p0 :: "real vec"
  assumes "length q0 = n" "length p0 = n" "drift (L_mat n) (q0, p0) \<noteq> 0" "\<delta>t \<noteq> 0"
  shows "total_energy (L_mat n) ((feuler_step \<delta>t (L_mat n) ^^ k) (q0, p0)) <
         total_energy (L_mat n) ((feuler_step \<delta>t (L_mat n) ^^ Suc k) (q0, p0))"
  using feuler_energy_less [of "fst ((feuler_step \<delta>t (L_mat n) ^^ k) (q0, p0))" n
      "snd ((feuler_step \<delta>t (L_mat n) ^^ k) (q0, p0))" \<delta>t]
    length_funpow_feuler [OF assms(1,2), where \<delta>t = \<delta>t and k = k]
    drift_funpow_feuler [OF assms(1,2,3), where \<delta>t = \<delta>t and k = k] assms(4)
  by simp

lemma beuler_funpow_less:
  fixes q0 p0 :: "real vec"
  assumes "length q0 = n" "length p0 = n" "drift (L_mat n) (q0, p0) \<noteq> 0" "\<delta>t \<noteq> 0"
    and s: "solves spsolve n (madd (eye n) (msmul (\<delta>t ^ 2) (L_mat n)))"
  shows "total_energy (L_mat n) ((beuler_step spsolve n \<delta>t (L_mat n) ^^ Suc k) (q0, p0)) <
         total_energy (L_mat n) ((beuler_step spsolve n \<delta>t (L_mat n) ^^ k) (q0, p0))"
  using beuler_energy_less(1) [of "fst ((beuler_step spsolve n \<delta>t (L_mat n) ^^ k) (q0, p0))" n
      "snd ((beuler_step spsolve n \<delta>t (L_mat n) ^^ k) (q0, p0))" spsolve \<delta>t]
    length_funpow_beuler [OF assms(1,2) s, where k = k]
    drift_funpow_beuler [OF assms(1,2,3) s, where k = k] assms(4) s
  by simp

text \<open>
  C2, as amended. In exact arithmetic, for the operator the program builds and arrays of
  its dimension, for every \<open>\<delta>t\<close>: one forward Euler step does not decrease the total
  energy; it raises it by exactly \<open>\<delta>t\<^sup>2 / 2\<close> times the drift \<open>|L q|\<^sup>2 + p . L p\<close>, so
  strictly when \<open>\<delta>t\<close> and the drift are not zero and not otherwise. The forward Euler
  array of energies is non-decreasing, and strictly increasing when \<open>\<delta>t\<close> and the drift
  of the initial state are not zero. When the solver solves the systems of
  \<open>I + \<delta>t\<^sup>2 L\<close>, the same holds for backward Euler with the order reversed.
\<close>

theorem euler_energy_monotone:
  fixes q p q0 p0 :: "real vec"
  assumes "length q = n" "length p = n" "length q0 = n" "length p0 = n"
  shows
    "total_energy (L_mat n) (q, p) \<le> total_energy (L_mat n) (feuler_step \<delta>t (L_mat n) (q, p)) \<and>
     total_energy (L_mat n) (feuler_step \<delta>t (L_mat n) (q, p)) - total_energy (L_mat n) (q, p) =
       \<delta>t ^ 2 / 2 * drift (L_mat n) (q, p) \<and>
     (total_energy (L_mat n) (q, p) < total_energy (L_mat n) (feuler_step \<delta>t (L_mat n) (q, p)) \<longleftrightarrow>
        \<delta>t \<noteq> 0 \<and> drift (L_mat n) (q, p) \<noteq> 0) \<and>
     sorted_wrt (\<le>) (energy_feuler (run spsolve n \<delta>t (L_mat n) num_steps q0 p0)) \<and>
     (\<delta>t \<noteq> 0 \<and> drift (L_mat n) (q0, p0) \<noteq> 0 \<longrightarrow>
        sorted_wrt (<) (energy_feuler (run spsolve n \<delta>t (L_mat n) num_steps q0 p0))) \<and>
     (solves spsolve n (madd (eye n) (msmul (\<delta>t ^ 2) (L_mat n))) \<longrightarrow>
        total_energy (L_mat n) (beuler_step spsolve n \<delta>t (L_mat n) (q, p)) \<le> total_energy (L_mat n) (q, p) \<and>
        (total_energy (L_mat n) (beuler_step spsolve n \<delta>t (L_mat n) (q, p)) < total_energy (L_mat n) (q, p) \<longleftrightarrow>
           \<delta>t \<noteq> 0 \<and> drift (L_mat n) (q, p) \<noteq> 0) \<and>
        sorted_wrt (\<ge>) (energy_beuler (run spsolve n \<delta>t (L_mat n) num_steps q0 p0)) \<and>
        (\<delta>t \<noteq> 0 \<and> drift (L_mat n) (q0, p0) \<noteq> 0 \<longrightarrow>
           sorted_wrt (>) (energy_beuler (run spsolve n \<delta>t (L_mat n) num_steps q0 p0))))"
proof (intro conjI impI)
  show "total_energy (L_mat n) (q, p) \<le> total_energy (L_mat n) (feuler_step \<delta>t (L_mat n) (q, p))"
    using assms by (simp add: feuler_energy_mono)
  show "total_energy (L_mat n) (feuler_step \<delta>t (L_mat n) (q, p)) - total_energy (L_mat n) (q, p) =
       \<delta>t ^ 2 / 2 * drift (L_mat n) (q, p)"
    by (rule feuler_energy_drift [OF assms(1,2)])
  show "total_energy (L_mat n) (q, p) < total_energy (L_mat n) (feuler_step \<delta>t (L_mat n) (q, p)) \<longleftrightarrow>
        \<delta>t \<noteq> 0 \<and> drift (L_mat n) (q, p) \<noteq> 0"
    by (rule feuler_energy_less [OF assms(1,2)])
  show "sorted_wrt (\<le>) (energy_feuler (run spsolve n \<delta>t (L_mat n) num_steps q0 p0))"
    unfolding sorted_wrt_iff_nth_Suc_transp [OF transp_on_le]
    using feuler_funpow_mono [OF assms(3,4), where \<delta>t = \<delta>t]
    by (simp add: run_eq length_energies nth_energies del: funpow.simps)
next
  assume "\<delta>t \<noteq> 0 \<and> drift (L_mat n) (q0, p0) \<noteq> 0"
  then show "sorted_wrt (<) (energy_feuler (run spsolve n \<delta>t (L_mat n) num_steps q0 p0))"
    unfolding sorted_wrt_iff_nth_Suc_transp [OF transp_on_less]
    using feuler_funpow_less [OF assms(3,4), where \<delta>t = \<delta>t]
    by (simp add: run_eq length_energies nth_energies del: funpow.simps)
next
  assume s: "solves spsolve n (madd (eye n) (msmul (\<delta>t ^ 2) (L_mat n)))"
  show "total_energy (L_mat n) (beuler_step spsolve n \<delta>t (L_mat n) (q, p)) \<le> total_energy (L_mat n) (q, p)"
    using assms s by (simp add: beuler_energy_mono)
  show "total_energy (L_mat n) (beuler_step spsolve n \<delta>t (L_mat n) (q, p)) < total_energy (L_mat n) (q, p) \<longleftrightarrow>
        \<delta>t \<noteq> 0 \<and> drift (L_mat n) (q, p) \<noteq> 0"
    by (rule beuler_energy_less(1) [OF assms(1,2) s])
  show "sorted_wrt (\<ge>) (energy_beuler (run spsolve n \<delta>t (L_mat n) num_steps q0 p0))"
    unfolding sorted_wrt_iff_nth_Suc_transp [OF transp_on_ge]
    using beuler_funpow_mono [OF assms(3,4) s]
    by (simp add: run_eq length_energies nth_energies del: funpow.simps)
  assume "\<delta>t \<noteq> 0 \<and> drift (L_mat n) (q0, p0) \<noteq> 0"
  then show "sorted_wrt (>) (energy_beuler (run spsolve n \<delta>t (L_mat n) num_steps q0 p0))"
    unfolding sorted_wrt_iff_nth_Suc_transp [OF transp_on_greater]
    using beuler_funpow_less [OF assms(3,4) _ _ s]
    by (simp add: run_eq length_energies nth_energies del: funpow.simps)
qed

theorem euler_energy_monotone_witness:
  "length [1, 2 :: real] = 2 \<and> length [0, 0 :: real] = 2 \<and>
   (1 / 2 :: real) \<noteq> 0 \<and> drift (L_mat 2) ([1, 2], [0, 0]) = 2 \<and>
   solves cramer2 2 (madd (eye 2) (msmul ((1 / 2) ^ 2) (L_mat 2))) \<and>
   total_energy (L_mat 2) ([1, 2 :: real], [0, 0]) = 1 / 2 \<and>
   total_energy (L_mat 2) (feuler_step (1 / 2) (L_mat 2) ([1, 2 :: real], [0, 0])) = 3 / 4 \<and>
   total_energy (L_mat 2) (beuler_step cramer2 2 (1 / 2) (L_mat 2) ([1, 2 :: real], [0, 0])) = 1 / 3 \<and>
   energy_feuler (run cramer2 2 (1 / 2) (L_mat 2) 2 [1, 2 :: real] [0, 0]) = [3 / 4, 9 / 8] \<and>
   energy_beuler (run cramer2 2 (1 / 2) (L_mat 2) 2 [1, 2 :: real] [0, 0]) = [1 / 3, 2 / 9] \<and>
   sorted_wrt (<) (energy_feuler (run cramer2 2 (1 / 2) (L_mat 2) 2 [1, 2 :: real] [0, 0])) \<and>
   sorted_wrt (>) (energy_beuler (run cramer2 2 (1 / 2) (L_mat 2) 2 [1, 2 :: real] [0, 0]))"
proof -
  have A: "madd (eye 2) (msmul ((1 / 2) ^ 2) (L_mat 2)) = ([[5 / 4, - (1 / 4)], [- (1 / 4), 5 / 4]] :: real mat)"
    by code_simp
  have s: "solves cramer2 2 (madd (eye 2) (msmul ((1 / 2) ^ 2) (L_mat 2)))"
    by (simp only: A) (simp add: solves_cramer2)
  have d: "drift (L_mat 2) ([1, 2], [0, 0]) = 2"
    by code_simp
  have l: "length [1, 2 :: real] = 2" "length [0, 0 :: real] = 2"
    by simp_all
  from euler_energy_monotone [OF l l, where \<delta>t = "1 / 2" and spsolve = cramer2 and num_steps = 2] s d
  have "sorted_wrt (<) (energy_feuler (run cramer2 2 (1 / 2) (L_mat 2) 2 [1, 2 :: real] [0, 0])) \<and>
        sorted_wrt (>) (energy_beuler (run cramer2 2 (1 / 2) (L_mat 2) 2 [1, 2 :: real] [0, 0]))"
    by simp
  then show ?thesis
    using s d by (simp add: run_example feuler_two_steps beuler_two_steps energies_of_examples)
qed

text \<open>
  C2 as stated fails where it says the energies strictly increase and strictly decrease:
  from the state of rest \<open>q = 0\<close>, \<open>p = 0\<close>, with \<open>\<delta>t = 1 > 0\<close>, every step of both
  schemes keeps the energy at zero, and both arrays of energies are constant.
\<close>

theorem euler_energy_not_strict:
  "(0 :: real) < 1 \<and> drift (L_mat 2) ([0, 0], [0, 0]) = 0 \<and>
   energy_feuler (run cramer2 2 1 (L_mat 2) 2 [0, 0 :: real] [0, 0]) = [0, 0] \<and>
   energy_beuler (run cramer2 2 1 (L_mat 2) 2 [0, 0 :: real] [0, 0]) = [0, 0] \<and>
   total_energy (L_mat 2) (feuler_step 1 (L_mat 2) ([0, 0 :: real], [0, 0])) =
     total_energy (L_mat 2) ([0, 0 :: real], [0, 0]) \<and>
   total_energy (L_mat 2) (beuler_step cramer2 2 1 (L_mat 2) ([0, 0 :: real], [0, 0])) =
     total_energy (L_mat 2) ([0, 0 :: real], [0, 0])"
proof -
  have f: "feuler_step 1 (L_mat 2) ([0, 0 :: real], [0, 0]) = ([0, 0], [0, 0])"
    by code_simp
  have b: "beuler_step cramer2 2 1 (L_mat 2) ([0, 0 :: real], [0, 0]) = ([0, 0], [0, 0])"
    by code_simp
  have e: "total_energy (L_mat 2) ([0, 0 :: real], [0, 0]) = 0"
    by code_simp
  have d: "drift (L_mat 2) ([0, 0], [0, 0]) = 0"
    by code_simp
  show ?thesis
    by (simp add: run_eq energies_two f b e d)
qed

section \<open>Non-finite values\<close>

text \<open>
  The steps at the scalar type \<open>npfloat\<close>. The rows of the model hold every entry of a
  matrix, and scipy multiplies the stored entries only; the two differ on a NaN that meets
  an entry scipy does not store (\<open>0 * NaN\<close> is NaN). For \<open>n = 2\<close> every entry of the
  operator is not zero, so is stored, and the theorem below does not depend on the product
  of the operator and an array.
\<close>

lemma NaN_plus [simp]: "NaN + b = NaN"
  by simp

lemma nonfinite_example:
  "verlet_step (Fin 1) (L_mat 2) ([NaN, Fin 0], [Fin 0, Fin 0]) = ([NaN, NaN], [NaN, NaN])"
  "feuler_step (Fin 1) (L_mat 2) ([NaN, Fin 0], [Fin 0, Fin 0]) = ([NaN, Fin 0], [NaN, NaN])"
  by code_simp+

text \<open>
  C8, as amended. No step checks its result, and none raises: a step returns its pair of
  arrays whatever they hold. A NaN at a position of the incoming \<open>q\<close> is at the same
  position of the \<open>q\<close> returned, for the Verlet and the forward Euler step, and for the
  backward Euler step when the array returned by the solver reaches that position.
\<close>

theorem nonfinite_state_returned:
  fixes q p :: "npfloat vec"
  assumes "i < length q" "i < length p" "i < length L" "q ! i = NaN"
  shows "fst (verlet_step \<delta>t L (q, p)) ! i = NaN \<and>
         fst (feuler_step \<delta>t L (q, p)) ! i = NaN \<and>
         (i < length (spsolve (madd (eye n) (msmul (\<delta>t ^ 2) L)) (vsub p (mat_vec (msmul \<delta>t L) q))) \<longrightarrow>
            fst (beuler_step spsolve n \<delta>t L (q, p)) ! i = NaN)"
  using assms
  by (simp add: verlet_step_def feuler_step_def beuler_step_def Let_def velocity_def
      potential_gradient_def nth_vadd)

text \<open>
  The solver of the example returns its right-hand side: the theorem asks nothing of the
  solver but the length of what it returns.
\<close>

theorem nonfinite_state_returned_witness:
  "(0::nat) < length [NaN, Fin 0] \<and> [NaN, Fin 0] ! 0 = NaN \<and>
   fst (verlet_step (Fin 1) (L_mat 2) ([NaN, Fin 0], [Fin 0, Fin 0])) ! 0 = NaN \<and>
   fst (feuler_step (Fin 1) (L_mat 2) ([NaN, Fin 0], [Fin 0, Fin 0])) ! 0 = NaN \<and>
   fst (beuler_step (\<lambda>A b. b) 2 (Fin 1) (L_mat 2) ([NaN, Fin 0], [Fin 0, Fin 0])) ! 0 = NaN"
proof -
  have L: "(L_mat 2 :: npfloat mat) = [[Fin 1, Fin (- 1)], [Fin (- 1), Fin 1]]"
    by code_simp
  show ?thesis
    using nonfinite_state_returned [of 0 "[NaN, Fin 0]" "[Fin 0, Fin 0]" "L_mat 2" "Fin 1" "\<lambda>A b. b" 2]
    by (simp add: L msmul_def)
qed

text \<open>
  C8 as stated fails: on a state whose \<open>q\<close> holds a NaN, with the operator for
  \<open>n = 2\<close> and \<open>\<delta>t = 1\<close>, the Verlet and the forward Euler step return a state with
  NaN entries; no error is raised, and the state after the step is not finite.
\<close>

theorem nonfinite_state_no_error:
  "verlet_step (Fin 1) (L_mat 2) ([NaN, Fin 0], [Fin 0, Fin 0]) = ([NaN, NaN], [NaN, NaN]) \<and>
   feuler_step (Fin 1) (L_mat 2) ([NaN, Fin 0], [Fin 0, Fin 0]) = ([NaN, Fin 0], [NaN, NaN]) \<and>
   \<not> list_all isfinite (fst (verlet_step (Fin 1) (L_mat 2) ([NaN, Fin 0], [Fin 0, Fin 0]))) \<and>
   \<not> list_all isfinite (fst (feuler_step (Fin 1) (L_mat 2) ([NaN, Fin 0], [Fin 0, Fin 0])))"
  by (simp add: nonfinite_example isfinite_def)

end
